theory Spec2Isabelle
  imports
    Main
    "HOL-Library.Char_ord"
    "HOL-Library.List_Lexorder"
    "HOL-Library.Sublist"
    "HOL-Library.Multiset"
    "HOL-Library.AList"
begin

section \<open>The data dictionary model\<close>

text \<open>
  The generator \<^verbatim>\<open>gen/generate-fields/main.go\<close> works on values of the package
  \<^verbatim>\<open>datadictionary\<close>: a \<^verbatim>\<open>FieldType\<close> with the methods \<^verbatim>\<open>Name()\<close> and \<^verbatim>\<open>Tag()\<close>
  and the fields \<^verbatim>\<open>Type\<close> and \<^verbatim>\<open>Enums\<close>, the latter a
  \<^verbatim>\<open>map[string]datadictionary.Enum\<close>, and an \<^verbatim>\<open>Enum\<close> with the fields \<^verbatim>\<open>Value\<close>
  and \<^verbatim>\<open>Description\<close>. The declarations themselves are not part of the files at
  hand; the records below hold exactly what \<^verbatim>\<open>main.go\<close> and its templates read
  and write.

  A Go map is modelled by its entries, a list of key/value pairs with distinct keys;
  the nil map is \<open>None\<close>. Go strings are byte strings and \<open>string\<close> is a list of
  bytes; the order on strings (\<open>List_Lexorder\<close> over \<open>Char_ord\<close>) is the bytewise
  lexicographic order of Go's \<^verbatim>\<open><\<close>.
\<close>

record Enum =
  Value :: string
  Description :: string

type_synonym 'v gomap = "(string \<times> 'v) list option"

record FieldType =
  Name :: string
  Tag :: int
  Type :: string
  Enums :: "Enum gomap"

text \<open>
  Errors are values. \<open>Errorf\<close> is an error made by \<^verbatim>\<open>fmt.Errorf\<close> with its text,
  \<open>NilMapAssign\<close> the run-time panic of an assignment to an entry of a nil map,
  \<open>ExecError\<close> the error \<^verbatim>\<open>Template.Execute\<close> returns when a function called by the
  template returns an error (it wraps that error), \<open>ParseFailure\<close> and
  \<open>WriteFailure\<close> whatever \<^verbatim>\<open>datadictionary.Parse\<close> and \<^verbatim>\<open>gen.WriteFile\<close> return.
\<close>

datatype error =
    Errorf string
  | NilMapAssign
  | ExecError error
  | ParseFailure string
  | WriteFailure string

subsection \<open>Go maps\<close>

definition entries :: "'v gomap \<Rightarrow> (string \<times> 'v) list" where
  "entries m = (case m of None \<Rightarrow> [] | Some kvs \<Rightarrow> kvs)"

text \<open>\<^verbatim>\<open>v, ok := m[k]\<close>: reading a nil map finds nothing.\<close>

definition lookup :: "'v gomap \<Rightarrow> string \<Rightarrow> 'v option" where
  "lookup m k = map_of (entries m) k"

text \<open>\<^verbatim>\<open>len(m)\<close>.\<close>

definition len :: "'v gomap \<Rightarrow> nat" where
  "len m = length (entries m)"

text \<open>\<^verbatim>\<open>m[k] = v\<close>: panics on a nil map.\<close>

definition assign :: "'v gomap \<Rightarrow> string \<Rightarrow> 'v \<Rightarrow> error + 'v gomap" where
  "assign m k v =
     (case m of
        None \<Rightarrow> Inl NilMapAssign
      | Some kvs \<Rightarrow> Inr (Some (AList.update k v kvs)))"

text \<open>
  \<^verbatim>\<open>for k, v := range m\<close> visits every entry of the map once, in an order the language
  leaves open and the runtime varies from one loop to the next. An \<open>order\<close> is the
  choice the runtime makes for one execution of such a loop: it rearranges the entries.
\<close>

type_synonym 'v order = "(string \<times> 'v) list \<Rightarrow> (string \<times> 'v) list"

definition rearranges :: "'v order \<Rightarrow> bool" where
  "rearranges visit = (\<forall>kvs. mset (visit kvs) = mset kvs)"

section \<open>The type mapper\<close>

text \<open>\<^verbatim>\<open>quickfixValueType\<close> (main.go, lines 37-52): the named result starts as the
  empty string and the switch has no default.\<close>

definition quickfixValueType :: "string \<Rightarrow> string" where
  "quickfixValueType quickfixType =
     (if quickfixType = ''FIXString'' then ''string''
      else if quickfixType = ''FIXBoolean'' then ''bool''
      else if quickfixType = ''FIXInt'' then ''int''
      else if quickfixType = ''FIXUTCTimestamp'' then ''time.Time''
      else if quickfixType = ''FIXFloat'' then ''float64''
      else '''')"

text \<open>Decimal digits of a number, as \<^verbatim>\<open>%v\<close> and the templates print an \<^verbatim>\<open>int\<close>.\<close>

fun digits :: "nat \<Rightarrow> string" where
  "digits n =
     (if n < 10 then [''0123456789'' ! n]
      else digits (n div 10) @ [''0123456789'' ! (n mod 10)])"

declare digits.simps [simp del]

definition fmtInt :: "int \<Rightarrow> string" where
  "fmtInt i = (if i < 0 then ''-'' @ digits (nat (- i)) else digits (nat i))"

definition sq :: string where "sq = [CHR 0x27]"
definition dq :: string where "dq = [CHR 0x22]"
definition nl :: string where "nl = [CHR 0x0A]"
definition tab :: string where "tab = [CHR 0x09]"

text \<open>The text of \<^verbatim>\<open>fmt.Errorf("Unknown type '%v' for tag '%v'\n", field.Type, field.Tag())\<close>.\<close>

definition unknownTypeText :: "string \<Rightarrow> int \<Rightarrow> string" where
  "unknownTypeText ty tg =
     ''Unknown type '' @ sq @ ty @ sq @ '' for tag '' @ sq @ fmtInt tg @ sq @ nl"

text \<open>
  \<^verbatim>\<open>quickfixType\<close> (main.go, lines 54-132). Every case of the switch but the last of a
  group falls through to the group's assignment; the default makes the error and
  leaves the named result empty.
\<close>

definition quickfixType :: "FieldType \<Rightarrow> string \<times> error option" where
  "quickfixType field =
     (if Type field \<in> set [''MULTIPLESTRINGVALUE'', ''MULTIPLEVALUESTRING'',
          ''MULTIPLECHARVALUE'', ''CHAR'', ''CURRENCY'', ''DATA'', ''MONTHYEAR'',
          ''LOCALMKTDATE'', ''TIME'', ''DATE'', ''EXCHANGE'', ''LANGUAGE'', ''XMLDATA'',
          ''COUNTRY'', ''UTCTIMEONLY'', ''UTCDATE'', ''UTCDATEONLY'', ''TZTIMEONLY'',
          ''TZTIMESTAMP'', ''STRING'']
      then (''FIXString'', None)
      else if Type field = ''BOOLEAN'' then (''FIXBoolean'', None)
      else if Type field \<in> set [''LENGTH'', ''DAYOFMONTH'', ''NUMINGROUP'', ''SEQNUM'', ''INT'']
      then (''FIXInt'', None)
      else if Type field = ''UTCTIMESTAMP'' then (''FIXUTCTimestamp'', None)
      else if Type field \<in> set [''QTY'', ''QUANTITY'', ''AMT'', ''PRICE'', ''PRICEOFFSET'',
          ''PERCENTAGE'', ''FLOAT'']
      then (''FIXFloat'', None)
      else ('''', Some (Errorf (unknownTypeText (Type field) (Tag field)))))"

section \<open>The field-type merger\<close>

text \<open>
  The body of the loop over \<^verbatim>\<open>oldField.Enums\<close> (main.go, lines 255-268). The inner
  loop over \<^verbatim>\<open>field.Enums\<close> only looks for an entry with the description of
  \<^verbatim>\<open>enum\<close>, so the order of its visits does not show.
\<close>

definition okToKeepEnum :: "Enum \<Rightarrow> FieldType \<Rightarrow> bool" where
  "okToKeepEnum enum field =
     (\<not> list_ex (\<lambda>(_, newEnum). Description newEnum = Description enum)
           (entries (Enums field)))"

definition mergeEnum :: "FieldType \<Rightarrow> string \<times> Enum \<Rightarrow> error + FieldType" where
  "mergeEnum field kv =
     (case kv of (enumVal, enum) \<Rightarrow>
        if lookup (Enums field) enumVal = None then
          if okToKeepEnum enum field then
            (case assign (Enums field) enumVal enum of
               Inl e \<Rightarrow> Inl e
             | Inr m \<Rightarrow> Inr (field\<lparr>Enums := m\<rparr>))
          else Inr field
        else Inr field)"

text \<open>The loop of line 254, over the entries in the order of the visits.\<close>

fun mergeEnums :: "FieldType \<Rightarrow> (string \<times> Enum) list \<Rightarrow> error + FieldType" where
  "mergeEnums field [] = Inr field"
| "mergeEnums field (kv # rest) =
     (case mergeEnum field kv of
        Inl e \<Rightarrow> Inl e
      | Inr field' \<Rightarrow> mergeEnums field' rest)"

text \<open>
  Lines 249-269: what happens to \<^verbatim>\<open>field\<close> when \<^verbatim>\<open>fieldTypeMap\<close> already holds
  \<^verbatim>\<open>oldField\<close> under its name. \<open>visit\<close> is the order in which the runtime visits
  the entries of \<^verbatim>\<open>oldField.Enums\<close> this time.
\<close>

definition mergeField :: "Enum order \<Rightarrow> FieldType \<Rightarrow> FieldType \<Rightarrow> error + FieldType" where
  "mergeField visit oldField field =
     (let field' =
        (if len (Enums oldField) > 0 \<and> Enums field = None
         then field\<lparr>Enums := Some []\<rparr> else field)
      in mergeEnums field' (visit (entries (Enums oldField))))"

text \<open>
  \<^verbatim>\<open>fieldTypeMap\<close> is made by \<^verbatim>\<open>make\<close> and never nil: it is kept as its entries.
  A \<open>fieldVisit\<close> is one execution of the body of the loop of line 247: the field it
  is handed, and the order in which the loop of line 254 will visit the old enums.
\<close>

type_synonym fieldTypeMap = "(string \<times> FieldType) list"

type_synonym fieldVisit = "FieldType \<times> Enum order"

definition processField :: "fieldTypeMap \<Rightarrow> fieldVisit \<Rightarrow> error + fieldTypeMap" where
  "processField fieldTypeMap fv =
     (case fv of (field, visit) \<Rightarrow>
        (case map_of fieldTypeMap (Name field) of
           Some oldField \<Rightarrow>
             (case mergeField visit oldField field of
                Inl e \<Rightarrow> Inl e
              | Inr field' \<Rightarrow> Inr (AList.update (Name field) field' fieldTypeMap))
         | None \<Rightarrow> Inr (AList.update (Name field) field fieldTypeMap)))"

fun processFields :: "fieldTypeMap \<Rightarrow> fieldVisit list \<Rightarrow> error + fieldTypeMap" where
  "processFields fieldTypeMap [] = Inr fieldTypeMap"
| "processFields fieldTypeMap (fv # rest) =
     (case processField fieldTypeMap fv of
        Inl e \<Rightarrow> Inl e
      | Inr fieldTypeMap' \<Rightarrow> processFields fieldTypeMap' rest)"

text \<open>
  The loop of line 239 over the arguments. \<^verbatim>\<open>datadictionary.Parse\<close> is not part of
  the files at hand: each argument comes with what \<open>Parse\<close> returns for it, an error
  or the fields of \<^verbatim>\<open>spec.FieldTypeByTag\<close> in the order the loop of line 247 visits
  them. An error of \<open>Parse\<close> is passed to \<^verbatim>\<open>panic\<close>.
\<close>

type_synonym dictionary = "string \<times> (error + fieldVisit list)"

fun processDicts :: "fieldTypeMap \<Rightarrow> dictionary list \<Rightarrow> error + fieldTypeMap" where
  "processDicts fieldTypeMap [] = Inr fieldTypeMap"
| "processDicts fieldTypeMap ((dataDict, parsed) # rest) =
     (case parsed of
        Inl err \<Rightarrow> Inl err
      | Inr visits \<Rightarrow>
          (case processFields fieldTypeMap visits of
             Inl e \<Rightarrow> Inl e
           | Inr fieldTypeMap' \<Rightarrow> processDicts fieldTypeMap' rest))"

text \<open>
  Lines 276-283: the values of the map, in the order \<open>collect\<close> in which the runtime
  visits it, sorted by \<^verbatim>\<open>sort.Sort(byFieldName(fieldTypes))\<close>. \<^verbatim>\<open>sort.Sort\<close> returns
  some rearrangement that is ascending for \<^verbatim>\<open>Less\<close>; the names of the values of the
  map are distinct, so there is only one (\<open>sorted_by_name_unique\<close> below), the one
  \<open>sort_key\<close> computes.
\<close>

definition sortedFieldTypes :: "FieldType order \<Rightarrow> fieldTypeMap \<Rightarrow> FieldType list" where
  "sortedFieldTypes collect fieldTypeMap = sort_key Name (map snd (collect fieldTypeMap))"

section \<open>The emitters\<close>

text \<open>
  The three templates, executed as \<^verbatim>\<open>text/template\<close> does: text outside the actions is
  copied, \<^verbatim>\<open>{{-\<close> removes the white space before the action and \<^verbatim>\<open>-}}\<close> the white
  space after it, a map is true when it has an entry, and \<^verbatim>\<open>range\<close> over a map with
  string keys visits the entries in ascending order of the keys.
\<close>

definition tagEntry :: "FieldType \<Rightarrow> string" where
  "tagEntry f = nl @ Name f @ '' quickfix.Tag =  '' @ fmtInt (Tag f)"

definition tagHead :: string where
  "tagHead =
     nl @ ''package tag'' @ nl @
     ''import('' @ dq @ ''github.com/quickfixgo/quickfix'' @ dq @ '')'' @ nl @ nl @
     ''const (''"

definition tagTail :: string where
  "tagTail = nl @ '')'' @ nl @ tab"

definition tagTemplate :: "FieldType list \<Rightarrow> string" where
  "tagTemplate fieldTypes = tagHead @ concat (map tagEntry fieldTypes) @ tagTail"

definition fieldHeading :: "FieldType \<Rightarrow> string \<Rightarrow> string" where
  "fieldHeading f base_type =
     ''//'' @ Name f @ ''Field is a '' @ Type f @ '' field'' @ nl @
     ''type '' @ Name f @ ''Field struct { quickfix.'' @ base_type @ '' }'' @ nl @ nl @
     ''//Tag returns tag.'' @ Name f @ '' ('' @ fmtInt (Tag f) @ '')'' @ nl @
     ''func (f '' @ Name f @ ''Field) Tag() quickfix.Tag { return tag.'' @ Name f @ '' }'' @ nl @ nl"

definition timestampConstructors :: "FieldType \<Rightarrow> string" where
  "timestampConstructors f =
     '' '' @ nl @
     ''//New'' @ Name f @ '' returns a new '' @ Name f @ ''Field initialized with val'' @ nl @
     ''func New'' @ Name f @ ''(val time.Time) '' @ Name f @ ''Field {'' @ nl @
     tab @ ''return '' @ Name f @ ''Field{ quickfix.FIXUTCTimestamp{ Time: val } } '' @ nl @
     ''}'' @ nl @ nl @
     ''//New'' @ Name f @ ''NoMillis returns a new '' @ Name f @
       ''Field initialized with val without millisecs'' @ nl @
     ''func New'' @ Name f @ ''NoMillis(val time.Time) '' @ Name f @ ''Field {'' @ nl @
     tab @ ''return '' @ Name f @
       ''Field{ quickfix.FIXUTCTimestamp{ Time: val, NoMillis: true } } '' @ nl @
     ''}'' @ nl @ nl"

definition valueConstructor :: "FieldType \<Rightarrow> string \<Rightarrow> string" where
  "valueConstructor f base_type =
     nl @
     ''//New'' @ Name f @ '' returns a new '' @ Name f @ ''Field initialized with val'' @ nl @
     ''func New'' @ Name f @ ''(val '' @ quickfixValueType base_type @ '') '' @ Name f @
       ''Field {'' @ nl @
     tab @ ''return '' @ Name f @ ''Field{ quickfix.'' @ base_type @ ''(val) }'' @ nl @
     ''}'' @ nl"

text \<open>One round of the \<^verbatim>\<open>range\<close> of the field template; an error of
  \<^verbatim>\<open>quickfixType\<close> ends the execution of the template.\<close>

definition fieldEntry :: "FieldType \<Rightarrow> error + string" where
  "fieldEntry f =
     (case quickfixType f of
        (_, Some err) \<Rightarrow> Inl (ExecError err)
      | (base_type, None) \<Rightarrow>
          Inr (fieldHeading f base_type @
               (if base_type = ''FIXUTCTimestamp'' then timestampConstructors f
                else valueConstructor f base_type)))"

fun fieldEntries :: "FieldType list \<Rightarrow> error + string" where
  "fieldEntries [] = Inr []"
| "fieldEntries (f # fs) =
     (case fieldEntry f of
        Inl e \<Rightarrow> Inl e
      | Inr t \<Rightarrow> (case fieldEntries fs of Inl e \<Rightarrow> Inl e | Inr ts \<Rightarrow> Inr (t @ ts)))"

definition fieldHead :: "string \<Rightarrow> string" where
  "fieldHead importRootPath =
     nl @ ''package field'' @ nl @ ''import('' @ nl @
     tab @ dq @ ''github.com/quickfixgo/quickfix'' @ dq @ nl @
     tab @ dq @ importRootPath @ ''/tag'' @ dq @ nl @ nl @
     tab @ dq @ ''time'' @ dq @ nl @ '')'' @ nl @ nl"

definition fieldTemplate :: "string \<Rightarrow> FieldType list \<Rightarrow> error + string" where
  "fieldTemplate importRootPath fieldTypes =
     (case fieldEntries fieldTypes of
        Inl e \<Rightarrow> Inl e
      | Inr body \<Rightarrow> Inr (fieldHead importRootPath @ body @ nl))"

definition enumLine :: "FieldType \<Rightarrow> Enum \<Rightarrow> string" where
  "enumLine ft e = nl @ Name ft @ ''_'' @ Description e @ '' = '' @ dq @ Value e @ dq"

definition rangeSorted :: "'v gomap \<Rightarrow> 'v list" where
  "rangeSorted m = map snd (sort_key fst (entries m))"

definition enumEntry :: "FieldType \<Rightarrow> string" where
  "enumEntry ft =
     nl @
     (if len (Enums ft) > 0 then
        '' '' @ nl @ ''//Enum values for '' @ Name ft @ nl @ ''const('' @ nl @
        concat (map (enumLine ft) (rangeSorted (Enums ft))) @ nl @ '')'' @ nl
      else [])"

definition enumHead :: string where
  "enumHead = nl @ ''package enum'' @ nl"

definition enumTail :: string where
  "enumTail = nl @ tab"

definition enumTemplate :: "FieldType list \<Rightarrow> string" where
  "enumTemplate fieldTypes = enumHead @ concat (map enumEntry fieldTypes) @ enumTail"

text \<open>
  What \<^verbatim>\<open>main.go\<close> takes from its surroundings: \<^verbatim>\<open>gen.GetImportPathRoot()\<close>, the
  effect and the result of \<^verbatim>\<open>gen.WriteFile\<close> on the world \<open>'w\<close> outside the process,
  the order in which the runtime visits \<^verbatim>\<open>fieldTypeMap\<close> at line 278, and the return
  code the error handler sets.
\<close>

record 'w runtime =
  importRootPath :: string
  WriteFile :: "string \<Rightarrow> string \<Rightarrow> 'w \<Rightarrow> error option \<times> 'w"
  rangeFieldTypeMap :: "FieldType order"
  failureCode :: int

definition genTags :: "'w runtime \<Rightarrow> FieldType list \<Rightarrow> 'w \<Rightarrow> error option \<times> 'w" where
  "genTags rt fieldTypes w = WriteFile rt ''tag/tag_numbers.go'' (tagTemplate fieldTypes) w"

definition genFields :: "'w runtime \<Rightarrow> FieldType list \<Rightarrow> 'w \<Rightarrow> error option \<times> 'w" where
  "genFields rt fieldTypes w =
     (case fieldTemplate (importRootPath rt) fieldTypes of
        Inl err \<Rightarrow> (Some err, w)
      | Inr text \<Rightarrow> WriteFile rt ''field/fields.go'' text w)"

definition genEnums :: "'w runtime \<Rightarrow> FieldType list \<Rightarrow> 'w \<Rightarrow> error option \<times> 'w" where
  "genEnums rt fieldTypes w = WriteFile rt ''enum/enums.go'' (enumTemplate fieldTypes) w"

section \<open>The driver\<close>

record ErrorHandler =
  ReturnCode :: int

text \<open>
  Modelled from the spec: the kinds of error are not declared in the files at hand. The
  spec sets the emission error, a "failure writing a generated artifact", apart from the
  errors of parsing, merging and type mapping.
\<close>

definition emissionError :: "error \<Rightarrow> bool" where
  "emissionError e = (case e of WriteFailure p \<Rightarrow> True | _ \<Rightarrow> False)"

text \<open>
  Modelled from the spec: \<^verbatim>\<open>gen.ErrorHandler\<close> and its method \<^verbatim>\<open>Handle\<close> are not part
  of the files at hand. The spec describes the handler as "a simple result-accumulator
  that collects failures from independent emission steps and reports a combined non-zero
  status, rather than aborting after the first failure", under the propagation policy
  "parse/merge/map errors abort immediately (no partial dictionary is usable); emission
  errors are accumulated across the three emitters"; an unknown type is "fatal for the
  whole generation run". So \<open>Handle\<close> leaves the handler as it is for no error, sets the
  return code to a non-zero value for an emission error, and aborts the run with any
  other error. The spec does not give the non-zero value; it is the \<open>failureCode\<close> of
  the runtime. It does not say how the run is aborted either: the run ends as the abort
  of line 244 does, by a panic with the error.
\<close>

definition Handle :: "int \<Rightarrow> ErrorHandler \<Rightarrow> error option \<Rightarrow> error + ErrorHandler" where
  "Handle code h err =
     (case err of
        None \<Rightarrow> Inr h
      | Some e \<Rightarrow> if emissionError e then Inr (h\<lparr>ReturnCode := code\<rparr>) else Inl e)"

text \<open>How the process ends: \<^verbatim>\<open>os.Exit\<close> with a code, or a panic; with the world
  it leaves. The status of the process is the code given to \<^verbatim>\<open>os.Exit\<close>; a Go program
  that ends by a panic nothing recovers exits with the status 2.\<close>

datatype 'w outcome = Exit int 'w | Panic error 'w

fun exitStatus :: "'w outcome \<Rightarrow> int" where
  "exitStatus (Exit code w) = code"
| "exitStatus (Panic err w) = 2"

text \<open>\<^verbatim>\<open>usage\<close> (lines 21-25); the text it prints is left out.\<close>

definition usage :: "'w \<Rightarrow> 'w outcome" where
  "usage w = Exit 2 w"

text \<open>Lines 285-289. A call of \<open>Handle\<close> that aborts ends the run there, with the
  world as the emitters that ran left it.\<close>

definition emit :: "'w runtime \<Rightarrow> FieldType list \<Rightarrow> 'w \<Rightarrow> 'w outcome" where
  "emit rt fieldTypes w =
     (let h = \<lparr>ReturnCode = 0\<rparr>;
          (err1, w1) = genTags rt fieldTypes w
      in case Handle (failureCode rt) h err1 of
           Inl e \<Rightarrow> Panic e w1
         | Inr h1 \<Rightarrow>
             (let (err2, w2) = genFields rt fieldTypes w1
              in case Handle (failureCode rt) h1 err2 of
                   Inl e \<Rightarrow> Panic e w2
                 | Inr h2 \<Rightarrow>
                     (let (err3, w3) = genEnums rt fieldTypes w2
                      in case Handle (failureCode rt) h2 err3 of
                           Inl e \<Rightarrow> Panic e w3
                         | Inr h3 \<Rightarrow> Exit (ReturnCode h3) w3)))"

text \<open>\<^verbatim>\<open>main\<close> (lines 229-290); \<open>args\<close> are the arguments \<^verbatim>\<open>flag.Args()\<close>.\<close>

definition main :: "'w runtime \<Rightarrow> dictionary list \<Rightarrow> 'w \<Rightarrow> 'w outcome" where
  "main rt args w =
     (if length args = 0 then usage w
      else
        (case processDicts [] args of
           Inl err \<Rightarrow> Panic err w
         | Inr fieldTypeMap \<Rightarrow>
             emit rt (sortedFieldTypes (rangeFieldTypeMap rt) fieldTypeMap) w))"

section \<open>The message wrapper\<close>

text \<open>
  The accessors of the wrapper of SecurityListUpdateReport. Each field of the message
  has a typed wrapper \<^verbatim>\<open>field.<F>Field\<close> and two methods of one shape; \<open>fieldName\<close>
  lists the fields. A wrapper is modelled by the name of its field and its content
  \<open>'v\<close>; \<^verbatim>\<open>&field.<F>Field{}\<close> holds the zero content. \<^verbatim>\<open>Body.Get\<close> belongs to the
  engine and is a parameter: from the body and the wrapper it is handed, it gives the
  wrapper as it leaves it, the rejection it returns, and the body afterwards.
\<close>

datatype fieldName =
    SecurityReportID | SecurityReqID | SecurityResponseID | SecurityRequestResult
  | TotNoRelatedSym | ClearingBusinessDate | SecurityUpdateAction | CorporateAction
  | LastFragment | NoRelatedSym | MarketID | MarketSegmentID
  | ApplID | ApplSeqNum | ApplLastSeqNum | ApplResendFlag

type_synonym 'v fieldWrapper = "fieldName \<times> 'v"

type_synonym ('b, 'v, 'r) bodyGet = "'b \<Rightarrow> 'v fieldWrapper \<Rightarrow> 'v fieldWrapper \<times> 'r option \<times> 'b"

record 'b Message =
  Body :: 'b

text \<open>\<^verbatim>\<open>func (m Message) F() (*field.FField, quickfix.MessageRejectError)\<close>.\<close>

definition getField ::
  "('b, 'v, 'r) bodyGet \<Rightarrow> 'v \<Rightarrow> fieldName \<Rightarrow> 'b Message \<Rightarrow> 'v fieldWrapper \<times> 'r option \<times> 'b" where
  "getField Get zero F m =
     (let f = (F, zero);
          (f', err, body') = Get (Body m) f
      in (f', err, body'))"

text \<open>\<^verbatim>\<open>func (m Message) GetF(f *field.FField) quickfix.MessageRejectError\<close>: the
  wrapper behind the pointer after the call, the result, and the body.\<close>

definition getFieldInto ::
  "('b, 'v, 'r) bodyGet \<Rightarrow> 'b Message \<Rightarrow> 'v fieldWrapper \<Rightarrow> 'v fieldWrapper \<times> 'r option \<times> 'b" where
  "getFieldInto Get m f = Get (Body m) f"

section \<open>Notions the properties are stated with\<close>

text \<open>The keys and the descriptions of a map of enums, and what makes a list of
  entries a map: no key twice.\<close>

definition keys :: "'v gomap \<Rightarrow> string set" where
  "keys m = fst ` set (entries m)"

definition descriptions :: "Enum gomap \<Rightarrow> string set" where
  "descriptions m = (\<lambda>kv. Description (snd kv)) ` set (entries m)"

definition isMap :: "'v gomap \<Rightarrow> bool" where
  "isMap m = distinct (map fst (entries m))"

definition noSharedDescription :: "Enum gomap \<Rightarrow> bool" where
  "noSharedDescription m = distinct (map (\<lambda>kv. Description (snd kv)) (entries m))"

text \<open>
  The visits of all the dictionaries in the order of the run, whether every dictionary
  was parsed, and whether every order that comes with a visit rearranges.
\<close>

definition visitsOf :: "dictionary list \<Rightarrow> fieldVisit list" where
  "visitsOf args =
     concat (map (\<lambda>(dataDict, parsed). case parsed of Inl err \<Rightarrow> [] | Inr visits \<Rightarrow> visits) args)"

definition allParsed :: "dictionary list \<Rightarrow> bool" where
  "allParsed args =
     list_all (\<lambda>(dataDict, parsed). case parsed of Inl err \<Rightarrow> False | Inr visits \<Rightarrow> True) args"

definition allRearrange :: "fieldVisit list \<Rightarrow> bool" where
  "allRearrange visits = list_all (\<lambda>(field, visit). rearranges visit) visits"

text \<open>One round of the loop of line 254, on the entries of a map that is not nil.\<close>

definition mergeStep :: "(string \<times> Enum) list \<Rightarrow> string \<times> Enum \<Rightarrow> (string \<times> Enum) list" where
  "mergeStep kvs kv =
     (if fst kv \<notin> fst ` set kvs \<and>
         Description (snd kv) \<notin> (\<lambda>kv'. Description (snd kv')) ` set kvs
      then kvs @ [kv] else kvs)"

text \<open>
  Two values of \<^verbatim>\<open>FieldType\<close> with the same content: the same name, tag and declared
  type, and maps of enums with the same entries, in whatever order the runtime holds and
  visits them.
\<close>

definition sameField :: "FieldType \<Rightarrow> FieldType \<Rightarrow> bool" where
  "sameField f g =
     (Name f = Name g \<and> Tag f = Tag g \<and> Type f = Type g \<and>
      isMap (Enums f) \<and> isMap (Enums g) \<and>
      set (entries (Enums f)) = set (entries (Enums g)))"

text \<open>
  Two maps from field names to field types with the same content; the same dictionaries
  handed to two runs, in which the runtime may visit the fields of a dictionary in
  different orders; and dictionaries in which no name is defined twice and no field has
  two enums with one key or one description.
\<close>

definition sameMap :: "fieldTypeMap \<Rightarrow> fieldTypeMap \<Rightarrow> bool" where
  "sameMap m m' =
     (fst ` set m = fst ` set m' \<and>
      (\<forall>n g g'. map_of m n = Some g \<and> map_of m' n = Some g' \<longrightarrow> sameField g g'))"

definition sameDictionary :: "dictionary \<Rightarrow> dictionary \<Rightarrow> bool" where
  "sameDictionary d d' =
     (fst d = fst d' \<and>
      (case (snd d, snd d') of
         (Inr visits, Inr visits') \<Rightarrow> mset (map fst visits) = mset (map fst visits')
       | (Inl err, Inl err') \<Rightarrow> err = err'
       | _ \<Rightarrow> False))"

definition wellFormed :: "fieldVisit list \<Rightarrow> bool" where
  "wellFormed visits =
     (distinct (map (\<lambda>fv. Name (fst fv)) visits) \<and>
      list_all (\<lambda>fv. isMap (Enums (fst fv)) \<and> noSharedDescription (Enums (fst fv))) visits)"

definition allWellFormed :: "dictionary list \<Rightarrow> bool" where
  "allWellFormed args =
     list_all (\<lambda>d. case snd d of Inl err \<Rightarrow> True | Inr visits \<Rightarrow> wellFormed visits) args"

text \<open>The lines of a text, and those of them that start the declaration of a
  constructor. \<open>consLine\<close> puts a text in front of the first of the lines.\<close>

fun consLine :: "string \<Rightarrow> string list \<Rightarrow> string list" where
  "consLine x [] = [x]"
| "consLine x (l # ls) = (x @ l) # ls"

fun splitLines :: "string \<Rightarrow> string list" where
  "splitLines [] = [[]]"
| "splitLines (c # cs) =
     (if c = CHR 0x0A then [] # splitLines cs else consLine [c] (splitLines cs))"

definition constructorLines :: "string \<Rightarrow> string list" where
  "constructorLines out = filter (prefix ''func New'') (splitLines out)"

text \<open>What the field emitter is to write for a field whose type is mapped: the heading
  and, by the declared type, the two constructors for a timestamp or the one
  constructor.\<close>

definition fieldBlock :: "FieldType \<Rightarrow> string" where
  "fieldBlock f =
     fieldHeading f (fst (quickfixType f)) @
     (if Type f = ''UTCTIMESTAMP'' then timestampConstructors f
      else valueConstructor f (fst (quickfixType f)))"


text \<open>Whether the handler aborts the run for what an emitter returned.\<close>

definition aborts :: "error option \<Rightarrow> bool" where
  "aborts err = (case err of None \<Rightarrow> False | Some e \<Rightarrow> \<not> emissionError e)"

text \<open>
  A text of one line, and a field whose name and whose enums' descriptions and values
  are of one line each. \<open>unlines\<close> is the text made of lines, each ended by a line
  break.
\<close>

definition oneLine :: "string \<Rightarrow> bool" where
  "oneLine s = (CHR 0x0A \<notin> set s)"

definition plain :: "FieldType \<Rightarrow> bool" where
  "plain f =
     (oneLine (Name f) \<and>
      list_all (\<lambda>kv. oneLine (Description (snd kv)) \<and> oneLine (Value (snd kv)))
        (entries (Enums f)))"

definition unlines :: "string list \<Rightarrow> string" where
  "unlines ls = concat (map (\<lambda>l. l @ nl) ls)"

text \<open>
  What the outputs are to hold for a list of fields, line by line. The file of the tags:
  its heading, one line for each field that binds the name of the field to its tag, in
  the order of the list, and the closing parenthesis.
\<close>

definition tagLine :: "FieldType \<Rightarrow> string" where
  "tagLine f = Name f @ '' quickfix.Tag =  '' @ fmtInt (Tag f)"

definition tagFile :: "FieldType list \<Rightarrow> string list" where
  "tagFile fts =
     [[], ''package tag'', ''import('' @ dq @ ''github.com/quickfixgo/quickfix'' @ dq @ '')'',
      [], ''const (''] @ map tagLine fts @ ['')'']"

text \<open>
  The file of the enums: its heading and, for each field in the order of the list, an
  empty line followed, when the field has enums, by the block of its constants under a
  comment with the name of the field.
\<close>

definition enumConst :: "FieldType \<Rightarrow> Enum \<Rightarrow> string" where
  "enumConst f e = Name f @ ''_'' @ Description e @ '' = '' @ dq @ Value e @ dq"

definition enumBlock :: "FieldType \<Rightarrow> string list" where
  "enumBlock f =
     (if entries (Enums f) = [] then []
      else ['' '', ''//Enum values for '' @ Name f, ''const('', []] @
           map (enumConst f) (map snd (sort_key fst (entries (Enums f)))) @ ['')''])"

definition enumFile :: "FieldType list \<Rightarrow> string list" where
  "enumFile fts = [[], ''package enum''] @ concat (map (\<lambda>f. [] # enumBlock f) fts) @ [[]]"

text \<open>
  The file of the fields: the lines of it that start the declaration of a type, one for
  each field, with the name of the field.
\<close>

definition typeLine :: "FieldType \<Rightarrow> string" where
  "typeLine f =
     ''type '' @ Name f @ ''Field struct { quickfix.'' @ fst (quickfixType f) @ '' }''"

definition typeLines :: "string \<Rightarrow> string list" where
  "typeLines out = filter (prefix ''type '') (splitLines out)"

section \<open>Concrete inputs\<close>

text \<open>Fields and dictionaries on which the properties below are tried.\<close>

definition fInt :: FieldType where
  "fInt = \<lparr>Name = ''MsgSeqNum'', Tag = 34, Type = ''SEQNUM'', Enums = None\<rparr>"

definition fString :: FieldType where
  "fString = \<lparr>Name = ''Account'', Tag = 1, Type = ''STRING'', Enums = None\<rparr>"


definition fBogus :: FieldType where
  "fBogus = \<lparr>Name = ''Bogus'', Tag = 9999, Type = ''BOGUSTYPE'', Enums = None\<rparr>"

text \<open>An entry as \<^verbatim>\<open>datadictionary\<close> builds it, under its value as the key; the field
  \<^verbatim>\<open>Side\<close> with a given map of enums.\<close>

definition entry :: "string \<Rightarrow> string \<Rightarrow> string \<times> Enum" where
  "entry v d = (v, \<lparr>Value = v, Description = d\<rparr>)"

definition side :: "Enum gomap \<Rightarrow> FieldType" where
  "side es = \<lparr>Name = ''Side'', Tag = 54, Type = ''CHAR'', Enums = es\<rparr>"

definition sellOld :: FieldType where
  "sellOld = side (Some [entry ''1'' ''Buy'', entry ''2'' ''Sell''])"

definition sellShortNew :: FieldType where
  "sellShortNew = side (Some [entry ''1'' ''Buy'', entry ''3'' ''SellShort''])"

definition sellNew :: FieldType where
  "sellNew = side (Some [entry ''1'' ''Buy'', entry ''3'' ''Sell''])"

definition dupOld :: FieldType where
  "dupOld = side (Some [entry ''1'' ''A'', entry ''2'' ''A''])"

definition otherNew :: FieldType where
  "otherNew = side (Some [entry ''3'' ''B''])"

definition sideNil :: FieldType where
  "sideNil = side None"

text \<open>A world that keeps the files written, in the order of the writes, with a
  \<^verbatim>\<open>WriteFile\<close> that always succeeds and one that fails for the file of the fields.\<close>

type_synonym files = "(string \<times> string) list"

definition writeAll :: "string \<Rightarrow> string \<Rightarrow> files \<Rightarrow> error option \<times> files" where
  "writeAll path content w = (None, w @ [(path, content)])"

definition writeButFields :: "string \<Rightarrow> string \<Rightarrow> files \<Rightarrow> error option \<times> files" where
  "writeButFields path content w =
     (if path = ''field/fields.go'' then (Some (WriteFailure path), w)
      else (None, w @ [(path, content)]))"

definition runtime0 :: "files runtime" where
  "runtime0 = \<lparr>importRootPath = ''github.com/quickfixgo/quickfix'', WriteFile = writeAll,
               rangeFieldTypeMap = id, failureCode = 1\<rparr>"

section \<open>Auxiliary lemmas\<close>

subsection \<open>Go maps and visiting orders\<close>

lemma update_fresh: "k \<notin> fst ` set al \<Longrightarrow> AList.update k v al = al @ [(k, v)]"
  by (induction al) auto

lemma lookup_None_iff: "lookup m k = None \<longleftrightarrow> k \<notin> keys m"
  by (simp add: lookup_def keys_def map_of_eq_None_iff)

lemma lookup_Some_iff: "isMap m \<Longrightarrow> lookup m k = Some v \<longleftrightarrow> (k, v) \<in> set (entries m)"
  by (simp add: lookup_def isMap_def)

lemma rearranges_set: "rearranges visit \<Longrightarrow> set (visit kvs) = set kvs"
  unfolding rearranges_def by (metis set_mset_mset)

lemma rearranges_Nil: "rearranges visit \<Longrightarrow> visit [] = []"
  unfolding rearranges_def by (metis mset_zero_iff)

lemma rearranges_distinct_map:
  "rearranges visit \<Longrightarrow> distinct (map f (visit kvs)) = distinct (map f kvs)"
  unfolding rearranges_def by (metis distinct_map mset_eq_setD mset_map distinct_count_atmost_1 set_mset_mset mset_eq_imp_distinct_iff)

subsection \<open>The loop over the old enums\<close>

lemma okToKeepEnum_iff: "okToKeepEnum e field \<longleftrightarrow> Description e \<notin> descriptions (Enums field)"
  by (force simp: okToKeepEnum_def descriptions_def list_ex_iff)

lemma mergeEnum_Some:
  "Enums field = Some kvs \<Longrightarrow>
   mergeEnum field kv = Inr (field\<lparr>Enums := Some (mergeStep kvs kv)\<rparr>)"
  by (cases kv)
     (auto simp: mergeEnum_def assign_def mergeStep_def okToKeepEnum_iff lookup_None_iff
        keys_def descriptions_def entries_def update_fresh)

lemma mergeEnums_Some:
  "Enums field = Some kvs \<Longrightarrow>
   mergeEnums field vs = Inr (field\<lparr>Enums := Some (foldl mergeStep kvs vs)\<rparr>)"
proof (induction vs arbitrary: field kvs)
  case Nil
  then show ?case by simp
next
  case (Cons kv vs)
  have "mergeEnums (field\<lparr>Enums := Some (mergeStep kvs kv)\<rparr>) vs =
        Inr (field\<lparr>Enums := Some (mergeStep kvs kv)\<rparr>\<lparr>Enums := Some (foldl mergeStep (mergeStep kvs kv) vs)\<rparr>)"
    by (rule Cons.IH) simp
  with Cons.prems show ?case by (simp add: mergeEnum_Some)
qed


subsection \<open>What the loop adds\<close>

lemma mergeStep_cases:
  "mergeStep kvs kv = kvs \<or> mergeStep kvs kv = kvs @ [kv] \<and> fst kv \<notin> fst ` set kvs \<and>
     Description (snd kv) \<notin> (\<lambda>kv'. Description (snd kv')) ` set kvs"
  by (simp add: mergeStep_def)

lemma foldl_mergeStep_prefix:
  "\<exists>added. foldl mergeStep kvs vs = kvs @ added \<and> set added \<subseteq> set vs"
proof (induction vs arbitrary: kvs)
  case Nil
  show ?case by simp
next
  case (Cons kv vs)
  obtain added where a: "foldl mergeStep (mergeStep kvs kv) vs = mergeStep kvs kv @ added"
      "set added \<subseteq> set vs"
    using Cons.IH by blast
  show ?case
  proof (cases "mergeStep kvs kv = kvs")
    case True
    with a show ?thesis by auto
  next
    case False
    then have "mergeStep kvs kv = kvs @ [kv]" using mergeStep_cases by blast
    with a have "foldl mergeStep kvs (kv # vs) = kvs @ (kv # added)" by simp
    moreover have "set (kv # added) \<subseteq> set (kv # vs)" using a(2) by auto
    ultimately show ?thesis by blast
  qed
qed

lemma foldl_mergeStep_keeps: "set kvs \<subseteq> set (foldl mergeStep kvs vs)"
  using foldl_mergeStep_prefix [of kvs vs] by auto

lemma foldl_mergeStep_added:
  "kv \<in> set (foldl mergeStep kvs vs) \<Longrightarrow> kv \<notin> set kvs \<Longrightarrow>
   kv \<in> set vs \<and> fst kv \<notin> fst ` set kvs \<and>
   Description (snd kv) \<notin> (\<lambda>kv'. Description (snd kv')) ` set kvs"
proof (induction vs arbitrary: kvs)
  case Nil
  then show ?case by simp
next
  case (Cons x vs)
  show ?case
  proof (cases "kv \<in> set (mergeStep kvs x)")
    case True
    with Cons.prems(2) have "kv = x \<and> mergeStep kvs x = kvs @ [x]"
      by (auto simp: mergeStep_def split: if_splits)
    then show ?thesis using mergeStep_cases [of kvs x] by auto
  next
    case False
    from Cons.prems(1) have "kv \<in> set (foldl mergeStep (mergeStep kvs x) vs)" by simp
    from Cons.IH [OF this False]
    have "kv \<in> set vs" "fst kv \<notin> fst ` set (mergeStep kvs x)"
      "Description (snd kv) \<notin> (\<lambda>kv'. Description (snd kv')) ` set (mergeStep kvs x)"
      by auto
    moreover have "set kvs \<subseteq> set (mergeStep kvs x)" by (auto simp: mergeStep_def)
    ultimately show ?thesis by auto
  qed
qed

lemma foldl_mergeStep_distinct_keys:
  "distinct (map fst kvs) \<Longrightarrow> distinct (map fst (foldl mergeStep kvs vs))"
  by (induction vs arbitrary: kvs) (auto simp: mergeStep_def)

lemma foldl_mergeStep_distinct_descriptions:
  "distinct (map (\<lambda>kv. Description (snd kv)) kvs) \<Longrightarrow>
   distinct (map (\<lambda>kv. Description (snd kv)) (foldl mergeStep kvs vs))"
  by (induction vs arbitrary: kvs) (auto simp: mergeStep_def)

lemma foldl_mergeStep_takes:
  "distinct (map fst vs) \<Longrightarrow> distinct (map (\<lambda>kv. Description (snd kv)) vs) \<Longrightarrow>
   kv \<in> set vs \<Longrightarrow> fst kv \<notin> fst ` set kvs \<Longrightarrow>
   Description (snd kv) \<notin> (\<lambda>kv'. Description (snd kv')) ` set kvs \<Longrightarrow>
   kv \<in> set (foldl mergeStep kvs vs)"
proof (induction vs arbitrary: kvs)
  case Nil
  then show ?case by simp
next
  case (Cons x vs)
  show ?case
  proof (cases "kv = x")
    case True
    with Cons.prems have "mergeStep kvs x = kvs @ [x]" by (simp add: mergeStep_def)
    then have "x \<in> set (mergeStep kvs x)" by simp
    then show ?thesis using True foldl_mergeStep_keeps [of "mergeStep kvs x" vs] by auto
  next
    case False
    with Cons.prems have in_vs: "kv \<in> set vs" by simp
    have k: "fst kv \<noteq> fst x" using Cons.prems(1) in_vs by (auto simp: image_iff)
    have d: "Description (snd kv) \<noteq> Description (snd x)"
      using Cons.prems(2) in_vs by (auto simp: image_iff)
    have "fst kv \<notin> fst ` set (mergeStep kvs x)"
      using Cons.prems(4) k by (auto simp: mergeStep_def)
    moreover have "Description (snd kv) \<notin> (\<lambda>kv'. Description (snd kv')) ` set (mergeStep kvs x)"
      using Cons.prems(5) d by (auto simp: mergeStep_def)
    ultimately have "kv \<in> set (foldl mergeStep (mergeStep kvs x) vs)"
      using Cons.IH [of "mergeStep kvs x"] Cons.prems(1,2) in_vs by simp
    then show ?thesis by simp
  qed
qed

subsection \<open>The merge of a field with the stored one\<close>

lemma mergeField_eq:
  assumes "rearranges visit"
  shows "mergeField visit oldField field =
     Inr (if entries (Enums oldField) = [] then field
          else field\<lparr>Enums := Some (foldl mergeStep (entries (Enums field))
                                   (visit (entries (Enums oldField))))\<rparr>)"
proof (cases "entries (Enums oldField) = []")
  case True
  then show ?thesis
    using rearranges_Nil [OF assms] by (simp add: mergeField_def len_def)
next
  case False
  then have pos: "len (Enums oldField) > 0" by (simp add: len_def)
  show ?thesis
  proof (cases "Enums field")
    case None
    then show ?thesis using False pos
      by (simp add: mergeField_def mergeEnums_Some [of _ "[]"] entries_def)
  next
    case (Some kvs)
    then show ?thesis using False pos
      by (simp add: mergeField_def mergeEnums_Some [of _ kvs] entries_def)
  qed
qed

lemma mergeField_entries:
  assumes "rearranges visit" "mergeField visit oldField field = Inr g"
  shows "entries (Enums g) =
         foldl mergeStep (entries (Enums field)) (visit (entries (Enums oldField)))"
    and "Name g = Name field" and "Tag g = Tag field" and "Type g = Type field"
  using assms(2) rearranges_Nil [OF assms(1)] unfolding mergeField_eq [OF assms(1)]
  by (auto simp: entries_def split: if_splits)

subsection \<open>The type mapper\<close>

lemma quickfixType_range:
  "quickfixType f = (''FIXString'', None) \<or> quickfixType f = (''FIXBoolean'', None) \<or>
   quickfixType f = (''FIXInt'', None) \<or> quickfixType f = (''FIXUTCTimestamp'', None) \<or>
   quickfixType f = (''FIXFloat'', None) \<or>
   quickfixType f = ([], Some (Errorf (unknownTypeText (Type f) (Tag f))))"
  unfolding quickfixType_def by simp

lemma quickfixType_ok:
  assumes "quickfixType f = (b, None)"
  shows "b \<in> {''FIXString'', ''FIXBoolean'', ''FIXInt'', ''FIXUTCTimestamp'', ''FIXFloat''}"
  using quickfixType_range [of f] assms by auto

lemma quickfixValueType_nonempty:
  "b \<in> {''FIXString'', ''FIXBoolean'', ''FIXInt'', ''FIXUTCTimestamp'', ''FIXFloat''} \<Longrightarrow>
   quickfixValueType b \<noteq> []"
  by (auto simp: quickfixValueType_def)

lemma quickfixType_fInt: "quickfixType fInt = (''FIXInt'', None)"
  by (simp add: quickfixType_def fInt_def)

subsection \<open>The loops over the fields and the dictionaries\<close>

lemma mergeField_from:
  assumes "rearranges visit" "mergeField visit oldField field = Inr g"
    "kv \<in> set (entries (Enums g))" "kv \<notin> set (entries (Enums field))"
  shows "kv \<in> set (entries (Enums oldField)) \<and> fst kv \<notin> keys (Enums field) \<and>
         Description (snd kv) \<notin> descriptions (Enums field)"
  using foldl_mergeStep_added [of kv "entries (Enums field)" "visit (entries (Enums oldField))"]
    assms mergeField_entries(1) [OF assms(1,2)] rearranges_set [OF assms(1)]
  by (simp add: keys_def descriptions_def)

lemma mergeField_keeps:
  assumes "rearranges visit" "mergeField visit oldField field = Inr g"
  shows "set (entries (Enums field)) \<subseteq> set (entries (Enums g))"
  using foldl_mergeStep_keeps mergeField_entries(1) [OF assms] by simp

lemma mergeField_isMap:
  assumes "rearranges visit" "mergeField visit oldField field = Inr g" "isMap (Enums field)"
  shows "isMap (Enums g)"
  using foldl_mergeStep_distinct_keys mergeField_entries(1) [OF assms(1,2)] assms(3)
  by (simp add: isMap_def)

lemma mergeField_noSharedDescription:
  assumes "rearranges visit" "mergeField visit oldField field = Inr g"
    "noSharedDescription (Enums field)"
  shows "noSharedDescription (Enums g)"
  using foldl_mergeStep_distinct_descriptions mergeField_entries(1) [OF assms(1,2)] assms(3)
  by (simp add: noSharedDescription_def)

lemma mergeField_takes:
  assumes "rearranges visit" "mergeField visit oldField field = Inr g"
    "isMap (Enums oldField)" "noSharedDescription (Enums oldField)"
    "kv \<in> set (entries (Enums oldField))" "fst kv \<notin> keys (Enums field)"
    "Description (snd kv) \<notin> descriptions (Enums field)"
  shows "kv \<in> set (entries (Enums g))"
proof -
  let ?vs = "visit (entries (Enums oldField))"
  have "distinct (map fst ?vs)"
    using assms(3) rearranges_distinct_map [OF assms(1), of fst] by (simp add: isMap_def)
  moreover have "distinct (map (\<lambda>kv. Description (snd kv)) ?vs)"
    using assms(4) rearranges_distinct_map [OF assms(1), of "\<lambda>kv. Description (snd kv)"]
    by (simp add: noSharedDescription_def)
  moreover have "kv \<in> set ?vs" using assms(5) rearranges_set [OF assms(1)] by simp
  ultimately have "kv \<in> set (foldl mergeStep (entries (Enums field)) ?vs)"
    using assms(6,7) by (intro foldl_mergeStep_takes) (simp_all add: keys_def descriptions_def)
  then show ?thesis using mergeField_entries(1) [OF assms(1,2)] by simp
qed

lemma processField_result:
  assumes "rearranges visit"
  shows "\<exists>g. processField m (f, visit) = Inr (AList.update (Name f) g m) \<and>
           Name g = Name f \<and> Tag g = Tag f \<and> Type g = Type f \<and>
           (map_of m (Name f) = None \<longrightarrow> g = f) \<and>
           (\<forall>old. map_of m (Name f) = Some old \<longrightarrow> mergeField visit old f = Inr g)"
proof (cases "map_of m (Name f)")
  case None
  then show ?thesis by (simp add: processField_def)
next
  case (Some old)
  obtain g where g: "mergeField visit old f = Inr g"
    using mergeField_eq [OF assms] by blast
  then show ?thesis
    using Some mergeField_entries(2-4) [OF assms g] by (simp add: processField_def)
qed

lemma processFields_append:
  "processFields m (xs @ ys) =
     (case processFields m xs of Inl e \<Rightarrow> Inl e | Inr m' \<Rightarrow> processFields m' ys)"
  by (induction xs arbitrary: m) (auto split: sum.splits)

lemma allRearrange_append [simp]:
  "allRearrange (xs @ ys) \<longleftrightarrow> allRearrange xs \<and> allRearrange ys"
  by (simp add: allRearrange_def)

lemma allRearrange_Cons [simp]:
  "allRearrange ((f, v) # xs) \<longleftrightarrow> rearranges v \<and> allRearrange xs"
  by (simp add: allRearrange_def)

lemma allRearrange_Nil [simp]: "allRearrange []"
  by (simp add: allRearrange_def)

lemma processFields_total:
  "allRearrange vs \<Longrightarrow> \<exists>m'. processFields m vs = Inr m'"
proof (induction vs arbitrary: m)
  case Nil
  show ?case by simp
next
  case (Cons fv vs)
  obtain f v where fv: "fv = (f, v)" by (cases fv)
  with Cons.prems have r: "rearranges v" and rest: "allRearrange vs" by simp_all
  obtain g where "processField m (f, v) = Inr (AList.update (Name f) g m)"
    using processField_result [OF r] by blast
  then show ?case using Cons.IH [OF rest] fv by simp
qed

lemma processFields_other:
  "allRearrange vs \<Longrightarrow> processFields m vs = Inr m' \<Longrightarrow>
   \<forall>fv \<in> set vs. Name (fst fv) \<noteq> n \<Longrightarrow> map_of m' n = map_of m n"
proof (induction vs arbitrary: m)
  case Nil
  then show ?case by simp
next
  case (Cons fv vs)
  obtain f v where fv: "fv = (f, v)" by (cases fv)
  with Cons.prems have r: "rearranges v" and rest: "allRearrange vs" by simp_all
  obtain g where g: "processField m (f, v) = Inr (AList.update (Name f) g m)"
    using processField_result [OF r] by blast
  with Cons.prems(2) fv have "processFields (AList.update (Name f) g m) vs = Inr m'" by simp
  from Cons.IH [OF rest this] Cons.prems(3)
  have "map_of m' n = map_of (AList.update (Name f) g m) n" by simp
  moreover have "Name f \<noteq> n" using Cons.prems(3) fv by simp
  ultimately show ?case by (simp add: update_conv')
qed

lemma processFields_keys:
  "allRearrange vs \<Longrightarrow> processFields m vs = Inr m' \<Longrightarrow>
   fst ` set m' = fst ` set m \<union> (\<lambda>fv. Name (fst fv)) ` set vs"
proof (induction vs arbitrary: m)
  case Nil
  then show ?case by simp
next
  case (Cons fv vs)
  obtain f v where fv: "fv = (f, v)" by (cases fv)
  with Cons.prems have r: "rearranges v" and rest: "allRearrange vs" by simp_all
  obtain g where g: "processField m (f, v) = Inr (AList.update (Name f) g m)"
    using processField_result [OF r] by blast
  with Cons.prems(2) fv have "processFields (AList.update (Name f) g m) vs = Inr m'" by simp
  from Cons.IH [OF rest this]
  have "fst ` set m' = fst ` set (AList.update (Name f) g m) \<union> (\<lambda>fv. Name (fst fv)) ` set vs" .
  then show ?case unfolding dom_update fv by auto
qed

lemma processFields_distinct:
  "allRearrange vs \<Longrightarrow> processFields m vs = Inr m' \<Longrightarrow> distinct (map fst m) \<Longrightarrow>
   distinct (map fst m')"
proof (induction vs arbitrary: m)
  case Nil
  then show ?case by simp
next
  case (Cons fv vs)
  obtain f v where fv: "fv = (f, v)" by (cases fv)
  with Cons.prems have r: "rearranges v" and rest: "allRearrange vs" by simp_all
  obtain g where g: "processField m (f, v) = Inr (AList.update (Name f) g m)"
    using processField_result [OF r] by blast
  with Cons.prems(2) fv have "processFields (AList.update (Name f) g m) vs = Inr m'" by simp
  from Cons.IH [OF rest this] Cons.prems(3) show ?case by (simp add: distinct_update)
qed

lemma processFields_named:
  "allRearrange vs \<Longrightarrow> processFields m vs = Inr m' \<Longrightarrow>
   \<forall>n g. map_of m n = Some g \<longrightarrow> Name g = n \<Longrightarrow> map_of m' n = Some g \<Longrightarrow> Name g = n"
proof (induction vs arbitrary: m)
  case Nil
  then show ?case by simp
next
  case (Cons fv vs)
  obtain f v where fv: "fv = (f, v)" by (cases fv)
  with Cons.prems have r: "rearranges v" and rest: "allRearrange vs" by simp_all
  obtain h where h: "processField m (f, v) = Inr (AList.update (Name f) h m)" "Name h = Name f"
    using processField_result [OF r] by blast
  with Cons.prems(2) fv have p: "processFields (AList.update (Name f) h m) vs = Inr m'" by simp
  have "\<forall>n g. map_of (AList.update (Name f) h m) n = Some g \<longrightarrow> Name g = n"
    using Cons.prems(3) h(2) by (simp add: update_conv')
  from Cons.IH [OF rest p this Cons.prems(4)] show ?case .
qed

lemma processDicts_flat:
  "allParsed args \<Longrightarrow> processDicts m args = processFields m (visitsOf args)"
proof (induction args arbitrary: m)
  case Nil
  show ?case by (simp add: visitsOf_def)
next
  case (Cons d args)
  obtain dataDict parsed where d: "d = (dataDict, parsed)" by (cases d)
  with Cons.prems obtain visits where p: "parsed = Inr visits"
    by (cases parsed) (simp_all add: allParsed_def)
  from Cons.prems have "allParsed args" by (simp add: allParsed_def)
  then have "\<And>m'. processDicts m' args = processFields m' (visitsOf args)" by (rule Cons.IH)
  moreover have "visitsOf (d # args) = visits @ visitsOf args" by (simp add: visitsOf_def d p)
  ultimately show ?case by (simp add: d p processFields_append split: sum.splits)
qed

lemma processFields_last:
  assumes "allRearrange (pre @ (f, v) # post)" "\<forall>fv \<in> set post. Name (fst fv) \<noteq> Name f"
  shows "\<exists>m0 g m. processFields mi pre = Inr m0 \<and>
           processFields mi (pre @ (f, v) # post) = Inr m \<and>
           map_of m (Name f) = Some g \<and>
           Name g = Name f \<and> Tag g = Tag f \<and> Type g = Type f \<and>
           (map_of m0 (Name f) = None \<longrightarrow> g = f) \<and>
           (\<forall>old. map_of m0 (Name f) = Some old \<longrightarrow> mergeField v old f = Inr g)"
proof -
  from assms(1) have a: "allRearrange pre" "rearranges v" "allRearrange post" by simp_all
  obtain m0 where m0: "processFields mi pre = Inr m0"
    using processFields_total [OF a(1)] by blast
  obtain g where g: "processField m0 (f, v) = Inr (AList.update (Name f) g m0)"
      "Name g = Name f" "Tag g = Tag f" "Type g = Type f"
      "map_of m0 (Name f) = None \<longrightarrow> g = f"
      "\<forall>old. map_of m0 (Name f) = Some old \<longrightarrow> mergeField v old f = Inr g"
    using processField_result [OF a(2), of m0 f] by auto
  obtain m where m: "processFields (AList.update (Name f) g m0) post = Inr m"
    using processFields_total [OF a(3)] by blast
  have "map_of m (Name f) = map_of (AList.update (Name f) g m0) (Name f)"
    using processFields_other [OF a(3) m assms(2)] .
  then have "map_of m (Name f) = Some g" by (simp add: update_conv')
  moreover have "processFields mi (pre @ (f, v) # post) = Inr m"
    using m0 g(1) m by (simp add: processFields_append)
  ultimately have "processFields mi pre = Inr m0 \<and>
           processFields mi (pre @ (f, v) # post) = Inr m \<and>
           map_of m (Name f) = Some g \<and>
           Name g = Name f \<and> Tag g = Tag f \<and> Type g = Type f \<and>
           (map_of m0 (Name f) = None \<longrightarrow> g = f) \<and>
           (\<forall>old. map_of m0 (Name f) = Some old \<longrightarrow> mergeField v old f = Inr g)"
    using m0 g by simp
  then show ?thesis
    by - (rule exI [of _ m0], rule exI [of _ g], rule exI [of _ m])
qed

subsection \<open>Where the enums of a stored field come from\<close>

lemma processFields_snoc:
  assumes "processFields m (xs @ [x]) = Inr m'"
  obtains m1 where "processFields m xs = Inr m1" "processField m1 x = Inr m'"
  using assms by (auto simp: processFields_append split: sum.splits)

lemma processFields_provenance:
  "allRearrange vs \<Longrightarrow> processFields [] vs = Inr m \<Longrightarrow> map_of m n = Some g \<Longrightarrow>
   kv \<in> set (entries (Enums g)) \<Longrightarrow>
   \<exists>pre f v post. vs = pre @ (f, v) # post \<and> Name f = n \<and> kv \<in> set (entries (Enums f)) \<and>
     (\<forall>fv \<in> set post. Name (fst fv) = n \<longrightarrow>
        Description (snd kv) \<notin> descriptions (Enums (fst fv)))"
proof (induction vs arbitrary: m g rule: rev_induct)
  case Nil
  then show ?case by simp
next
  case (snoc x xs)
  obtain f v where x: "x = (f, v)" by (cases x)
  from snoc.prems(1) x have r: "allRearrange xs" "rearranges v" by simp_all
  obtain m1 where m1: "processFields [] xs = Inr m1" "processField m1 (f, v) = Inr m"
    using snoc.prems(2) x by (auto elim: processFields_snoc)
  obtain h where h: "processField m1 (f, v) = Inr (AList.update (Name f) h m1)"
      "map_of m1 (Name f) = None \<longrightarrow> h = f"
      "\<forall>old. map_of m1 (Name f) = Some old \<longrightarrow> mergeField v old f = Inr h"
    using processField_result [OF r(2), of m1 f] by auto
  from m1(2) h(1) have m: "m = AList.update (Name f) h m1" by simp
  have older: "\<exists>pre f' v' post. xs @ [x] = pre @ (f', v') # post \<and> Name f' = n \<and>
       kv \<in> set (entries (Enums f')) \<and>
       (\<forall>fv \<in> set post. Name (fst fv) = n \<longrightarrow>
          Description (snd kv) \<notin> descriptions (Enums (fst fv)))"
    if old: "map_of m1 n = Some old" "kv \<in> set (entries (Enums old))"
      and later: "Name f = n \<longrightarrow> Description (snd kv) \<notin> descriptions (Enums f)"
    for old
  proof -
    from snoc.IH [OF r(1) m1(1) old]
    obtain pre f' v' post where d: "xs = pre @ (f', v') # post" "Name f' = n"
        "kv \<in> set (entries (Enums f'))"
        "\<forall>fv \<in> set post. Name (fst fv) = n \<longrightarrow>
           Description (snd kv) \<notin> descriptions (Enums (fst fv))"
      by blast
    have "xs @ [x] = pre @ (f', v') # (post @ [x])" using d(1) by simp
    moreover have "\<forall>fv \<in> set (post @ [x]). Name (fst fv) = n \<longrightarrow>
           Description (snd kv) \<notin> descriptions (Enums (fst fv))"
      using d(4) later x by simp
    ultimately show ?thesis using d(2,3) by blast
  qed
  show ?case
  proof (cases "Name f = n")
    case False
    then have "map_of m1 n = Some g" using snoc.prems(3) m by (simp add: update_conv')
    then show ?thesis using older [of g] snoc.prems(4) False by simp
  next
    case True
    then have gh: "g = h" using snoc.prems(3) m by (simp add: update_conv')
    show ?thesis
    proof (cases "kv \<in> set (entries (Enums f))")
      case inf: True
      have "xs @ [x] = xs @ (f, v) # []" using x by simp
      then show ?thesis using True inf by (metis empty_iff list.set(1))
    next
      case notf: False
      have "map_of m1 (Name f) \<noteq> None" using h(2) gh notf snoc.prems(4) by auto
      then obtain old where old: "map_of m1 (Name f) = Some old" by auto
      then have mg: "mergeField v old f = Inr g" using h(3) gh by simp
      from mergeField_from [OF r(2) mg snoc.prems(4) notf]
      have "kv \<in> set (entries (Enums old))"
        "Description (snd kv) \<notin> descriptions (Enums f)" by simp_all
      then show ?thesis using older [of old] old True by simp
    qed
  qed
qed

lemma processFields_invariants:
  "allRearrange vs \<Longrightarrow> processFields m vs = Inr m' \<Longrightarrow>
   \<forall>fv \<in> set vs. isMap (Enums (fst fv)) \<and> noSharedDescription (Enums (fst fv)) \<Longrightarrow>
   \<forall>n g. map_of m n = Some g \<longrightarrow> isMap (Enums g) \<and> noSharedDescription (Enums g) \<Longrightarrow>
   map_of m' n = Some g \<Longrightarrow> isMap (Enums g) \<and> noSharedDescription (Enums g)"
proof (induction vs arbitrary: m)
  case Nil
  then show ?case by simp
next
  case (Cons fv vs)
  obtain f v where fv: "fv = (f, v)" by (cases fv)
  with Cons.prems have r: "rearranges v" and rest: "allRearrange vs" by simp_all
  obtain h where h: "processField m (f, v) = Inr (AList.update (Name f) h m)"
      "map_of m (Name f) = None \<longrightarrow> h = f"
      "\<forall>old. map_of m (Name f) = Some old \<longrightarrow> mergeField v old f = Inr h"
    using processField_result [OF r, of m f] by auto
  with Cons.prems(2) fv have p: "processFields (AList.update (Name f) h m) vs = Inr m'" by simp
  have f: "isMap (Enums f)" "noSharedDescription (Enums f)" using Cons.prems(3) fv by simp_all
  have hh: "isMap (Enums h) \<and> noSharedDescription (Enums h)"
  proof (cases "map_of m (Name f)")
    case None
    then show ?thesis using h(2) f by simp
  next
    case (Some old)
    then have "mergeField v old f = Inr h" using h(3) by simp
    then show ?thesis
      using mergeField_isMap [OF r _ f(1)] mergeField_noSharedDescription [OF r _ f(2)] by blast
  qed
  have "\<forall>n g. map_of (AList.update (Name f) h m) n = Some g \<longrightarrow>
          isMap (Enums g) \<and> noSharedDescription (Enums g)"
    using Cons.prems(4) hh by (simp add: update_conv')
  moreover have "\<forall>fv \<in> set vs. isMap (Enums (fst fv)) \<and> noSharedDescription (Enums (fst fv))"
    using Cons.prems(3) by simp
  ultimately show ?case using Cons.IH [OF rest p _ _ Cons.prems(5)] by blast
qed

lemma same_position:
  assumes "pre @ x # post = pre' @ y # post'"
  shows "x = y \<or> y \<in> set post \<or> x \<in> set post'"
proof -
  from assms consider us where "pre = pre' @ us" "us @ x # post = y # post'"
    | us where "pre @ us = pre'" "x # post = us @ y # post'"
    by (auto simp: append_eq_append_conv2)
  then show ?thesis
  proof cases
    case 1
    then show ?thesis by (cases us) auto
  next
    case 2
    then show ?thesis by (cases us) auto
  qed
qed

lemma mergeField_lookup:
  assumes r: "rearranges visit" and mg: "mergeField visit oldField field = Inr g"
    and mo: "isMap (Enums oldField)" and mf: "isMap (Enums field)"
  shows "lookup (Enums field) k = Some e \<Longrightarrow> lookup (Enums g) k = Some e"
    and "lookup (Enums oldField) k = Some e \<Longrightarrow> lookup (Enums field) k = None \<Longrightarrow>
         Description e \<in> descriptions (Enums field) \<Longrightarrow> lookup (Enums g) k = None"
    and "noSharedDescription (Enums oldField) \<Longrightarrow> lookup (Enums oldField) k = Some e \<Longrightarrow>
         lookup (Enums field) k = None \<Longrightarrow> Description e \<notin> descriptions (Enums field) \<Longrightarrow>
         lookup (Enums g) k = Some e"
proof -
  have mgm: "isMap (Enums g)" using mergeField_isMap [OF r mg mf] .
  show "lookup (Enums g) k = Some e" if "lookup (Enums field) k = Some e"
    using that mergeField_keeps [OF r mg] by (auto simp: lookup_Some_iff [OF mf] lookup_Some_iff [OF mgm])
  show "lookup (Enums g) k = None"
    if o: "lookup (Enums oldField) k = Some e" and n: "lookup (Enums field) k = None"
      and d: "Description e \<in> descriptions (Enums field)"
  proof (rule ccontr)
    assume "lookup (Enums g) k \<noteq> None"
    then obtain e' where e': "(k, e') \<in> set (entries (Enums g))"
      using lookup_Some_iff [OF mgm] by auto
    have "(k, e') \<notin> set (entries (Enums field))"
      using n by (force simp: lookup_None_iff keys_def)
    from mergeField_from [OF r mg e' this]
    have "(k, e') \<in> set (entries (Enums oldField))"
      "Description e' \<notin> descriptions (Enums field)" by simp_all
    moreover have "lookup (Enums oldField) k = Some e'"
      using calculation(1) lookup_Some_iff [OF mo] by simp
    then have "e' = e" using o by simp
    ultimately show False using d by simp
  qed
  show "lookup (Enums g) k = Some e"
    if s: "noSharedDescription (Enums oldField)" and o: "lookup (Enums oldField) k = Some e"
      and n: "lookup (Enums field) k = None"
      and d: "Description e \<notin> descriptions (Enums field)"
  proof -
    have "(k, e) \<in> set (entries (Enums oldField))" using o lookup_Some_iff [OF mo] by simp
    moreover have "fst (k, e) \<notin> keys (Enums field)" using n by (simp add: lookup_None_iff)
    ultimately have "(k, e) \<in> set (entries (Enums g))"
      using mergeField_takes [OF r mg mo s, of "(k, e)"] d by simp
    then show ?thesis using lookup_Some_iff [OF mgm] by simp
  qed
qed

subsection \<open>Runs over one or two dictionaries\<close>

lemma rearranges_id: "rearranges id" "rearranges (\<lambda>kvs. kvs)"
  by (simp_all add: rearranges_def)

lemma rearranges_rev: "rearranges rev"
  by (simp add: rearranges_def)

lemma allParsed_two: "allParsed [(p, Inr old), (q, Inr new)]"
  by (simp add: allParsed_def)

lemma visitsOf_two: "visitsOf [(p, Inr old), (q, Inr new)] = old @ new"
  by (simp add: visitsOf_def)

lemma split_distinct_names:
  assumes "distinct (map (\<lambda>fv. Name (fst fv)) vs)" "(f, v) \<in> set vs"
  obtains pre post where "vs = pre @ (f, v) # post"
    "\<forall>fv \<in> set pre. Name (fst fv) \<noteq> Name f" "\<forall>fv \<in> set post. Name (fst fv) \<noteq> Name f"
proof -
  from assms(2) obtain pre post where s: "vs = pre @ (f, v) # post"
    by (meson split_list)
  with assms(1) have "\<forall>fv \<in> set pre. Name (fst fv) \<noteq> Name f"
    "\<forall>fv \<in> set post. Name (fst fv) \<noteq> Name f"
    by (auto simp: image_iff)
  with s show ?thesis by (rule that)
qed

lemma processFields_lastE:
  assumes "allRearrange (pre @ (f, v) # post)" "\<forall>fv \<in> set post. Name (fst fv) \<noteq> Name f"
  obtains m0 g m where "processFields mi pre = Inr m0"
    "processFields mi (pre @ (f, v) # post) = Inr m"
    "map_of m (Name f) = Some g"
    "Name g = Name f" "Tag g = Tag f" "Type g = Type f"
    "map_of m0 (Name f) = None \<longrightarrow> g = f"
    "\<forall>old. map_of m0 (Name f) = Some old \<longrightarrow> mergeField v old f = Inr g"
  by (insert processFields_last [OF assms, of mi], elim exE conjE, rule that)

lemma mergeEnums_nil_panics:
  assumes "Enums f = None" "vs \<noteq> []"
  shows "mergeEnums f vs = Inl NilMapAssign"
proof -
  obtain kv rest where vs: "vs = kv # rest" using assms(2) by (cases vs) auto
  obtain k e where kv: "kv = (k, e)" by (cases kv)
  have "mergeEnum f (k, e) = Inl NilMapAssign"
    using assms(1)
    by (simp add: mergeEnum_def lookup_def entries_def okToKeepEnum_def assign_def)
  then show ?thesis by (simp add: vs kv)
qed

lemma rearranges_nonempty: "rearranges visit \<Longrightarrow> kvs \<noteq> [] \<Longrightarrow> visit kvs \<noteq> []"
  using rearranges_set [of visit kvs] by (metis set_empty)

lemma mergeField_creates_map:
  assumes "rearranges visit" "mergeField visit oldField field = Inr g"
    "Enums field = None" "len (Enums oldField) > 0"
  shows "Enums g \<noteq> None"
    and "mergeEnums (field\<lparr>Enums := Some []\<rparr>) (visit (entries (Enums oldField))) = Inr g"
    and "mergeEnums field (visit (entries (Enums oldField))) = Inl NilMapAssign"
proof -
  have ne: "entries (Enums oldField) \<noteq> []" using assms(4) by (simp add: len_def)
  show "Enums g \<noteq> None"
    using assms(2) ne unfolding mergeField_eq [OF assms(1)] by auto
  show "mergeEnums (field\<lparr>Enums := Some []\<rparr>) (visit (entries (Enums oldField))) = Inr g"
    using assms(2-4) by (simp add: mergeField_def)
  show "mergeEnums field (visit (entries (Enums oldField))) = Inl NilMapAssign"
    using mergeEnums_nil_panics [OF assms(3) rearranges_nonempty [OF assms(1) ne]] .
qed

subsection \<open>Evaluating runs\<close>

lemmas run_simps =
  processField_def mergeField_def mergeEnum_def okToKeepEnum_def lookup_def entries_def
  len_def assign_def side_def entry_def fString_def sellOld_def sellNew_def sellShortNew_def
  dupOld_def otherNew_def sideNil_def

subsection \<open>Sorting by name\<close>

lemma sorted_by_name_unique:
  assumes "distinct (map Name xs)" "mset ys = mset xs" "sorted (map Name ys)"
  shows "ys = sort_key Name xs"
proof -
  have s: "set ys = set xs" using assms(2) by (rule mset_eq_setD)
  have d: "distinct (map Name ys)"
    using assms(1,2) by (metis mset_eq_imp_distinct_iff mset_map)
  have "map Name ys = map Name (sort_key Name xs)"
  proof (rule sorted_distinct_set_unique)
    show "sorted (map Name ys)" by (rule assms(3))
    show "distinct (map Name ys)" by (rule d)
    show "sorted (map Name (sort_key Name xs))" by (rule sorted_sort_key)
    show "distinct (map Name (sort_key Name xs))"
      using assms(1) by (metis mset_eq_imp_distinct_iff mset_map mset_sort)
    show "set (map Name ys) = set (map Name (sort_key Name xs))" using s by simp
  qed
  moreover have "inj_on Name (set ys \<union> set (sort_key Name xs))"
    using assms(1) s by (simp add: distinct_map)
  ultimately show ?thesis by (simp add: inj_on_map_eq_map)
qed

lemma sort_key_Name_rearranged:
  assumes "distinct (map Name xs)" "mset ys = mset xs"
  shows "sort_key Name ys = sort_key Name xs"
proof (rule sorted_by_name_unique [OF assms(1)])
  show "mset (sort_key Name ys) = mset xs" using assms(2) by simp
  show "sorted (map Name (sort_key Name ys))" by (rule sorted_sort_key)
qed

lemma rearranges_mset_map: "rearranges visit \<Longrightarrow> mset (map f (visit kvs)) = mset (map f kvs)"
  unfolding rearranges_def by (metis mset_map)

lemma values_distinct_names:
  assumes "distinct (map fst m)" "\<forall>n g. map_of m n = Some g \<longrightarrow> Name g = n"
  shows "map Name (map snd m) = map fst m"
proof -
  have "Name (snd kv) = fst kv" if "kv \<in> set m" for kv
  proof -
    have "map_of m (fst kv) = Some (snd kv)" using assms(1) that by simp
    then show ?thesis using assms(2) by blast
  qed
  then show ?thesis by simp
qed

lemma sortedFieldTypes_names:
  assumes "distinct (map fst m)" "\<forall>n g. map_of m n = Some g \<longrightarrow> Name g = n"
    "rearranges collect"
  shows "map Name (sortedFieldTypes collect m) = sort (map fst m)"
    and "sorted_wrt (<) (map Name (sortedFieldTypes collect m))"
    and "mset (sortedFieldTypes collect m) = mset (map snd m)"
    and "distinct (map Name (map snd (collect m)))"
proof -
  have v: "map Name (map snd m) = map fst m" by (rule values_distinct_names [OF assms(1,2)])
  have ms: "mset (map snd (collect m)) = mset (map snd m)"
    by (rule rearranges_mset_map [OF assms(3)])
  have dm: "distinct (map Name (map snd m))" unfolding v by (rule assms(1))
  have eq: "sortedFieldTypes collect m = sort_key Name (map snd m)"
    unfolding sortedFieldTypes_def by (rule sort_key_Name_rearranged [OF dm ms])
  have dn: "distinct (map Name (sort_key Name (map snd m)))"
    using dm by (metis mset_eq_imp_distinct_iff mset_map mset_sort)
  have sn: "set (map Name (sort_key Name (map snd m))) = set (map fst m)"
    using v by (metis set_map set_sort)
  show n: "map Name (sortedFieldTypes collect m) = sort (map fst m)"
    unfolding eq
  proof (rule sorted_distinct_set_unique [OF sorted_sort_key dn])
    show "sorted (sort (map fst m))" by simp
    show "distinct (sort (map fst m))" using assms(1) by simp
    show "set (map Name (sort_key Name (map snd m))) = set (sort (map fst m))"
      unfolding sn by simp
  qed
  show "sorted_wrt (<) (map Name (sortedFieldTypes collect m))"
    unfolding n strict_sorted_iff using assms(1) by simp
  show "mset (sortedFieldTypes collect m) = mset (map snd m)"
    unfolding eq by simp
  show "distinct (map Name (map snd (collect m)))"
    using dm ms by (metis mset_eq_imp_distinct_iff mset_map)
qed

subsection \<open>The run up to the emitters\<close>

lemma set_visitsOf:
  "set (visitsOf args) = (\<Union>d \<in> set args. case snd d of Inl err \<Rightarrow> {} | Inr visits \<Rightarrow> set visits)"
  by (auto simp: visitsOf_def split: sum.splits prod.splits)

lemma allParsed_set: "allParsed args \<longleftrightarrow> (\<forall>d \<in> set args. \<exists>visits. snd d = Inr visits)"
proof -
  have "(case d of (dataDict, parsed) \<Rightarrow> case parsed of Inl err \<Rightarrow> False | Inr visits \<Rightarrow> True)
        \<longleftrightarrow> (\<exists>visits. snd d = Inr visits)" for d :: dictionary
    by (cases d, cases "snd d") auto
  then show ?thesis by (simp add: allParsed_def list_all_iff)
qed

lemma allRearrange_set: "allRearrange vs \<longleftrightarrow> (\<forall>fv \<in> set vs. rearranges (snd fv))"
  by (auto simp: allRearrange_def list_all_iff)

lemma processDicts_names:
  assumes "allParsed args" "allRearrange (visitsOf args)" "processDicts [] args = Inr m"
  shows "fst ` set m = (\<lambda>fv. Name (fst fv)) ` set (visitsOf args)"
    and "distinct (map fst m)"
    and "\<forall>n g. map_of m n = Some g \<longrightarrow> Name g = n"
proof -
  from assms(3) have p: "processFields [] (visitsOf args) = Inr m"
    by (simp add: processDicts_flat [OF assms(1)])
  show "fst ` set m = (\<lambda>fv. Name (fst fv)) ` set (visitsOf args)"
    using processFields_keys [OF assms(2) p] by simp
  show "distinct (map fst m)"
    using processFields_distinct [OF assms(2) p] by simp
  show "\<forall>n g. map_of m n = Some g \<longrightarrow> Name g = n"
    using processFields_named [OF assms(2) p] by simp
qed

lemma main_emits:
  "args \<noteq> [] \<Longrightarrow> processDicts [] args = Inr m \<Longrightarrow>
   main rt args w = emit rt (sortedFieldTypes (rangeFieldTypeMap rt) m) w"
  by (simp add: main_def)

lemma fieldEntries_Inr:
  "fieldEntries fts = Inr out \<Longrightarrow> \<exists>ts. out = concat ts \<and> map fieldEntry fts = map Inr ts"
proof (induction fts arbitrary: out)
  case Nil
  then show ?case by simp
next
  case (Cons f fts)
  from Cons.prems obtain t rest where t: "fieldEntry f = Inr t" "fieldEntries fts = Inr rest"
      "out = t @ rest"
    by (auto split: sum.splits)
  from Cons.IH [OF t(2)] obtain ts where "rest = concat ts" "map fieldEntry fts = map Inr ts"
    by blast
  then have "out = concat (t # ts) \<and> map fieldEntry (f # fts) = map Inr (t # ts)"
    using t by simp
  then show ?case by blast
qed

subsection \<open>The emitters on fields with the same content\<close>

lemma sort_key_fst_same:
  assumes "distinct (map fst xs)" "distinct (map fst ys)" "set xs = set ys"
  shows "sort_key fst xs = sort_key fst ys"
proof -
  have "distinct xs" "distinct ys" using assms(1,2) by (simp_all add: distinct_map)
  then have "mset xs = mset ys" using assms(3) by (simp add: set_eq_iff_mset_eq_distinct)
  moreover have "inj_on fst (set xs)" using assms(1) by (simp add: distinct_map)
  ultimately show ?thesis by (rule sort_key_eq_sort_key)
qed

lemma rangeSorted_keys:
  assumes "isMap m"
  shows "sorted_wrt (<) (map fst (sort_key fst (entries m)))"
proof -
  have "distinct (map fst (sort_key fst (entries m)))"
    using assms by (metis isMap_def mset_eq_imp_distinct_iff mset_map mset_sort)
  then show ?thesis by (simp add: strict_sorted_iff)
qed

lemma sameField_tagEntry: "sameField f g \<Longrightarrow> tagEntry f = tagEntry g"
  by (simp add: sameField_def tagEntry_def)

lemma sameField_quickfixType: "sameField f g \<Longrightarrow> quickfixType f = quickfixType g"
  by (simp add: sameField_def quickfixType_def)

lemma sameField_fieldEntry: "sameField f g \<Longrightarrow> fieldEntry f = fieldEntry g"
  using sameField_quickfixType [of f g]
  by (simp add: sameField_def fieldEntry_def fieldHeading_def timestampConstructors_def
      valueConstructor_def split: prod.splits option.splits)

lemma sameField_enumEntry:
  assumes "sameField f g"
  shows "enumEntry f = enumEntry g"
proof -
  from assms have s: "set (entries (Enums f)) = set (entries (Enums g))"
    and n: "Name f = Name g"
    and d: "distinct (map fst (entries (Enums f)))" "distinct (map fst (entries (Enums g)))"
    by (simp_all add: sameField_def isMap_def)
  have "rangeSorted (Enums f) = rangeSorted (Enums g)"
    unfolding rangeSorted_def using sort_key_fst_same [OF d s] by simp
  moreover have "len (Enums f) > 0 \<longleftrightarrow> len (Enums g) > 0"
    using s by (metis len_def length_greater_0_conv set_empty)
  moreover have "enumLine f = enumLine g" using n by (simp add: enumLine_def fun_eq_iff)
  ultimately show ?thesis using n by (simp add: enumEntry_def)
qed

lemma list_all2_map_eq:
  "list_all2 P xs ys \<Longrightarrow> (\<And>x y. P x y \<Longrightarrow> h x = h y) \<Longrightarrow> map h xs = map h ys"
  by (induction rule: list_all2_induct) auto

lemma sameField_fieldEntries:
  "list_all2 sameField fts fts' \<Longrightarrow> fieldEntries fts = fieldEntries fts'"
  by (induction rule: list_all2_induct) (auto simp: sameField_fieldEntry split: sum.splits)

lemma sameField_templates:
  assumes "list_all2 sameField fts fts'"
  shows "tagTemplate fts = tagTemplate fts'"
    and "fieldTemplate root fts = fieldTemplate root fts'"
    and "enumTemplate fts = enumTemplate fts'"
proof -
  show "tagTemplate fts = tagTemplate fts'"
    using list_all2_map_eq [OF assms sameField_tagEntry] by (simp add: tagTemplate_def)
  show "fieldTemplate root fts = fieldTemplate root fts'"
    using sameField_fieldEntries [OF assms] by (simp add: fieldTemplate_def)
  show "enumTemplate fts = enumTemplate fts'"
    using list_all2_map_eq [OF assms sameField_enumEntry] by (simp add: enumTemplate_def)
qed

lemma sameField_emit:
  assumes "list_all2 sameField fts fts'"
  shows "genTags rt fts w = genTags rt fts' w" "genFields rt fts w = genFields rt fts' w"
    "genEnums rt fts w = genEnums rt fts' w" "emit rt fts w = emit rt fts' w"
proof -
  note T = sameField_templates [OF assms]
  show a: "\<And>w. genTags rt fts w = genTags rt fts' w" by (simp add: genTags_def T)
  show b: "\<And>w. genFields rt fts w = genFields rt fts' w" by (simp add: genFields_def T)
  show c: "\<And>w. genEnums rt fts w = genEnums rt fts' w" by (simp add: genEnums_def T)
  show "emit rt fts w = emit rt fts' w" unfolding emit_def a b c by (rule refl)
qed

subsection \<open>Lines of a text\<close>

lemma splitLines_not_Nil [simp]: "splitLines s \<noteq> []"
proof (induction s)
  case Nil
  show ?case by simp
next
  case (Cons c s)
  then obtain l ls where "splitLines s = l # ls" by (cases "splitLines s") auto
  then show ?case by simp
qed

lemma consLine_append: "ls \<noteq> [] \<Longrightarrow> consLine (x @ y) ls = consLine x (consLine y ls)"
  by (cases ls) auto

lemma consLine_not_Nil [simp]: "consLine x ls \<noteq> []"
  by (cases ls) auto

lemma splitLines_app:
  "CHR 0x0A \<notin> set x \<Longrightarrow> splitLines (x @ y) = consLine x (splitLines y)"
proof (induction x)
  case Nil
  obtain l ls where "splitLines y = l # ls" by (cases "splitLines y") auto
  then show ?case by simp
next
  case (Cons c x)
  from Cons.prems have "c \<noteq> CHR 0x0A" "CHR 0x0A \<notin> set x" by auto
  then show ?case using Cons.IH consLine_append [of "splitLines y" "[c]" x] by simp
qed

lemma splitLines_nl: "splitLines (nl @ y) = [] # splitLines y" "splitLines nl = [[], []]"
  by (simp_all add: nl_def)

lemma splitLines_after_newline:
  "splitLines (a @ CHR 0x0A # b) = splitLines a @ splitLines b"
proof (induction a)
  case Nil
  show ?case by simp
next
  case (Cons c a)
  obtain l ls where s: "splitLines a = l # ls" by (cases "splitLines a") auto
  then show ?case using Cons by simp
qed

lemma prefix_same: "prefix xs (xs @ ys)"
  by (simp add: prefix_def)


lemma digits_chars: "c \<in> set (digits n) \<Longrightarrow> c \<in> set ''0123456789''"
proof (induction n rule: digits.induct)
  case (1 n)
  have m: "''0123456789'' ! k \<in> set ''0123456789''" if "k < 10" for k
    using that by (intro nth_mem) simp
  show ?case
  proof (cases "n < 10")
    case True
    then show ?thesis using "1.prems" m [of n] by (simp add: digits.simps [of n])
  next
    case False
    have "n mod 10 < 10" by simp
    then show ?thesis
      using "1.prems" "1.IH" False m [of "n mod 10"]
      by (auto simp: digits.simps [of n])
  qed
qed

lemma fmtInt_no_newline: "CHR 0x0A \<notin> set (fmtInt i)"
proof
  assume "CHR 0x0A \<in> set (fmtInt i)"
  then have "CHR 0x0A \<in> set (digits (nat (- i))) \<or> CHR 0x0A \<in> set (digits (nat i))"
    by (auto simp: fmtInt_def split: if_splits)
  then show False using digits_chars [of "CHR 0x0A"] by auto
qed

lemma Type_no_newline:
  assumes "quickfixType f = (b, None)"
  shows "CHR 0x0A \<notin> set (Type f)"
proof
  assume n: "CHR 0x0A \<in> set (Type f)"
  have "Type f \<noteq> t" if "CHR 0x0A \<notin> set t" for t using n that by auto
  then have "quickfixType f = ([], Some (Errorf (unknownTypeText (Type f) (Tag f))))"
    unfolding quickfixType_def by simp
  with assms show False by simp
qed


subsection \<open>The constructors in the output of the field emitter\<close>

lemma quickfixType_timestamp:
  "quickfixType f = (''FIXUTCTimestamp'', None) \<longleftrightarrow> Type f = ''UTCTIMESTAMP''"
  by (simp add: quickfixType_def)

lemma fieldEntry_Inr:
  assumes "fieldEntry f = Inr t"
  shows "t = fieldBlock f" and "snd (quickfixType f) = None"
    and "fst (quickfixType f) = ''FIXUTCTimestamp'' \<longleftrightarrow> Type f = ''UTCTIMESTAMP''"
proof -
  obtain b where b: "quickfixType f = (b, None)"
    using assms by (cases "quickfixType f") (auto simp: fieldEntry_def split: option.splits)
  then show "snd (quickfixType f) = None" by simp
  show ts: "fst (quickfixType f) = ''FIXUTCTimestamp'' \<longleftrightarrow> Type f = ''UTCTIMESTAMP''"
    using b quickfixType_timestamp [of f] by auto
  show "t = fieldBlock f"
    using assms b ts by (auto simp: fieldEntry_def fieldBlock_def)
qed

lemma fieldEntries_blocks:
  "fieldEntries fts = Inr body \<Longrightarrow>
   body = concat (map fieldBlock fts) \<and> (\<forall>f \<in> set fts. \<exists>t. fieldEntry f = Inr t)"
proof (induction fts arbitrary: body)
  case Nil
  then show ?case by simp
next
  case (Cons f fts)
  from Cons.prems obtain t rest where t: "fieldEntry f = Inr t" "fieldEntries fts = Inr rest"
      "body = t @ rest"
    by (auto split: sum.splits)
  from Cons.IH [OF t(2)] fieldEntry_Inr(1) [OF t(1)] t show ?case by auto
qed

lemma constructorLines_Nil [simp]: "constructorLines [] = []"
  by (simp add: constructorLines_def)


lemma fieldBlock_ends: "fieldBlock f \<noteq> []" "last (fieldBlock f) = CHR 0x0A"
  by (simp_all add: fieldBlock_def fieldHeading_def timestampConstructors_def
      valueConstructor_def nl_def)




subsection \<open>The driver\<close>

lemma aborts_simps [simp]:
  "aborts None = False" "aborts (Some e) = (\<not> emissionError e)"
  by (simp_all add: aborts_def)

lemma emissionError_simps [simp]:
  "emissionError (WriteFailure p) = True" "emissionError (ExecError e) = False"
  "emissionError (Errorf t) = False" "emissionError NilMapAssign = False"
  "emissionError (ParseFailure p) = False"
  by (simp_all add: emissionError_def)

lemma emit_eq:
  "emit rt fts w =
     (if aborts (fst (genTags rt fts w))
      then Panic (the (fst (genTags rt fts w))) (snd (genTags rt fts w))
      else if aborts (fst (genFields rt fts (snd (genTags rt fts w))))
      then Panic (the (fst (genFields rt fts (snd (genTags rt fts w)))))
             (snd (genFields rt fts (snd (genTags rt fts w))))
      else if aborts (fst (genEnums rt fts (snd (genFields rt fts (snd (genTags rt fts w))))))
      then Panic (the (fst (genEnums rt fts (snd (genFields rt fts (snd (genTags rt fts w)))))))
             (snd (genEnums rt fts (snd (genFields rt fts (snd (genTags rt fts w))))))
      else Exit (if fst (genTags rt fts w) = None \<and>
                    fst (genFields rt fts (snd (genTags rt fts w))) = None \<and>
                    fst (genEnums rt fts (snd (genFields rt fts (snd (genTags rt fts w))))) = None
                 then 0 else failureCode rt)
             (snd (genEnums rt fts (snd (genFields rt fts (snd (genTags rt fts w)))))))"
proof -
  obtain e1 w1 where r1: "genTags rt fts w = (e1, w1)" by (cases "genTags rt fts w")
  obtain e2 w2 where r2: "genFields rt fts w1 = (e2, w2)" by (cases "genFields rt fts w1")
  obtain e3 w3 where r3: "genEnums rt fts w2 = (e3, w3)" by (cases "genEnums rt fts w2")
  show ?thesis
    unfolding emit_def Let_def r1 prod.case fst_conv snd_conv r2 r3
    by (cases e1; cases e2; cases e3) (simp_all add: Handle_def)
qed

lemma fieldEntries_Inl:
  "fieldEntries fts = Inl e \<Longrightarrow> \<exists>err. e = ExecError err"
proof (induction fts)
  case Nil
  then show ?case by simp
next
  case (Cons f fts)
  then show ?case
    by (cases "quickfixType f") (auto simp: fieldEntry_def split: sum.splits option.splits)
qed

lemma genFields_Inl:
  assumes "fieldTemplate (importRootPath rt) fts = Inl e"
  shows "genFields rt fts w = (Some e, w)" "aborts (Some e)"
proof -
  show "genFields rt fts w = (Some e, w)" using assms by (simp add: genFields_def)
  from assms have "fieldEntries fts = Inl e"
    by (auto simp: fieldTemplate_def split: sum.splits)
  from fieldEntries_Inl [OF this] show "aborts (Some e)" by auto
qed

subsection \<open>Two runs on the same dictionaries\<close>

lemma mergeField_entries_set:
  assumes r: "rearranges visit" and mg: "mergeField visit oldField field = Inr g"
    and mo: "isMap (Enums oldField)" and so: "noSharedDescription (Enums oldField)"
  shows "set (entries (Enums g)) =
     set (entries (Enums field)) \<union>
     {kv \<in> set (entries (Enums oldField)). fst kv \<notin> keys (Enums field) \<and>
        Description (snd kv) \<notin> descriptions (Enums field)}"
proof (intro set_eqI iffI)
  fix kv
  assume "kv \<in> set (entries (Enums g))"
  then show "kv \<in> set (entries (Enums field)) \<union>
     {kv \<in> set (entries (Enums oldField)). fst kv \<notin> keys (Enums field) \<and>
        Description (snd kv) \<notin> descriptions (Enums field)}"
    using mergeField_from [OF r mg] by blast
next
  fix kv
  assume "kv \<in> set (entries (Enums field)) \<union>
     {kv \<in> set (entries (Enums oldField)). fst kv \<notin> keys (Enums field) \<and>
        Description (snd kv) \<notin> descriptions (Enums field)}"
  then show "kv \<in> set (entries (Enums g))"
    using mergeField_keeps [OF r mg] mergeField_takes [OF r mg mo so] by blast
qed

lemma mergeField_sameField:
  assumes r: "rearranges v" "rearranges v'"
    and mg: "mergeField v old f = Inr g" "mergeField v' old' f = Inr g'"
    and s: "sameField old old'"
    and n: "noSharedDescription (Enums old)" "noSharedDescription (Enums old')"
    and f: "isMap (Enums f)"
  shows "sameField g g'"
proof -
  from s have mo: "isMap (Enums old)" "isMap (Enums old')"
    and e: "set (entries (Enums old)) = set (entries (Enums old'))"
    by (simp_all add: sameField_def)
  have "set (entries (Enums g)) = set (entries (Enums g'))"
    unfolding mergeField_entries_set [OF r(1) mg(1) mo(1) n(1)]
      mergeField_entries_set [OF r(2) mg(2) mo(2) n(2)] e ..
  moreover have "isMap (Enums g)" "isMap (Enums g')"
    using mergeField_isMap [OF r(1) mg(1) f] mergeField_isMap [OF r(2) mg(2) f] by simp_all
  ultimately show ?thesis
    using mergeField_entries(2-4) [OF r(1) mg(1)] mergeField_entries(2-4) [OF r(2) mg(2)]
    by (simp add: sameField_def)
qed

lemma sameField_refl: "isMap (Enums f) \<Longrightarrow> sameField f f"
  by (simp add: sameField_def)

text \<open>What a dictionary without a name defined twice leaves in the map under a name.\<close>

lemma processFields_at_name:
  assumes r: "allRearrange vs" and d: "distinct (map (\<lambda>fv. Name (fst fv)) vs)"
    and p: "processFields m vs = Inr m1"
  shows "\<forall>fv \<in> set vs. Name (fst fv) \<noteq> n \<Longrightarrow> map_of m1 n = map_of m n"
    and "(f, v) \<in> set vs \<Longrightarrow> map_of m (Name f) = None \<Longrightarrow> map_of m1 (Name f) = Some f"
    and "(f, v) \<in> set vs \<Longrightarrow> map_of m (Name f) = Some old \<Longrightarrow>
         \<exists>g. map_of m1 (Name f) = Some g \<and> mergeField v old f = Inr g"
proof -
  show "map_of m1 n = map_of m n" if "\<forall>fv \<in> set vs. Name (fst fv) \<noteq> n"
    using processFields_other [OF r p that] .
  have at: "\<exists>g. map_of m1 (Name f) = Some g \<and> (map_of m (Name f) = None \<longrightarrow> g = f) \<and>
        (\<forall>old. map_of m (Name f) = Some old \<longrightarrow> mergeField v old f = Inr g)"
    if mem: "(f, v) \<in> set vs" for f v
  proof -
    obtain pre post where s: "vs = pre @ (f, v) # post"
        "\<forall>fv \<in> set pre. Name (fst fv) \<noteq> Name f" "\<forall>fv \<in> set post. Name (fst fv) \<noteq> Name f"
      using split_distinct_names [OF d mem] by blast
    from r s(1) have rp: "allRearrange pre" and ra: "allRearrange (pre @ (f, v) # post)"
      by simp_all
    obtain m0 g m' where 1: "processFields m pre = Inr m0"
        "processFields m (pre @ (f, v) # post) = Inr m'" "map_of m' (Name f) = Some g"
        "map_of m0 (Name f) = None \<longrightarrow> g = f"
        "\<forall>old. map_of m0 (Name f) = Some old \<longrightarrow> mergeField v old f = Inr g"
      by (rule processFields_lastE [OF ra s(3), of m]) (rule that)
    have "map_of m0 (Name f) = map_of m (Name f)"
      using processFields_other [OF rp 1(1) s(2)] .
    moreover have "m' = m1" using 1(2) p s(1) by simp
    ultimately show ?thesis using 1(3-5) by auto
  qed
  show "map_of m1 (Name f) = Some f" if "(f, v) \<in> set vs" "map_of m (Name f) = None"
    using at [OF that(1)] that(2) by auto
  show "\<exists>g. map_of m1 (Name f) = Some g \<and> mergeField v old f = Inr g"
    if "(f, v) \<in> set vs" "map_of m (Name f) = Some old"
    using at [OF that(1)] that(2) by auto
qed

lemma map_of_None_keys: "map_of m n = None \<longleftrightarrow> n \<notin> fst ` set m"
  by (simp add: map_of_eq_None_iff)

lemma wellFormed_fields:
  "wellFormed vs \<Longrightarrow> (f, v) \<in> set vs \<Longrightarrow> isMap (Enums f) \<and> noSharedDescription (Enums f)"
  by (auto simp: wellFormed_def list_all_iff)

lemma wellFormed_same:
  assumes "wellFormed vs" "mset (map fst vs) = mset (map fst vs')"
  shows "wellFormed vs'"
proof -
  have "image_mset Name (mset (map fst vs)) = image_mset Name (mset (map fst vs'))"
    using assms(2) by simp
  then have "mset (map (\<lambda>fv. Name (fst fv)) vs) = mset (map (\<lambda>fv. Name (fst fv)) vs')"
    by (simp add: multiset.map_comp comp_def)
  moreover have "distinct (map (\<lambda>fv. Name (fst fv)) vs)"
    using assms(1) by (simp add: wellFormed_def)
  ultimately have d: "distinct (map (\<lambda>fv. Name (fst fv)) vs')"
    using mset_eq_imp_distinct_iff by blast
  have "set (map fst vs) = set (map fst vs')" using assms(2) by (rule mset_eq_setD)
  then have "\<exists>v. (fst fv, v) \<in> set vs" if "fv \<in> set vs'" for fv
    using that by force
  then have "isMap (Enums (fst fv)) \<and> noSharedDescription (Enums (fst fv))"
    if "fv \<in> set vs'" for fv
    using that wellFormed_fields [OF assms(1)] by blast
  then show ?thesis using d by (simp add: wellFormed_def list_all_iff)
qed

lemma processFields_sameMap:
  assumes r: "allRearrange vs" "allRearrange vs'"
    and w: "wellFormed vs"
    and same: "mset (map fst vs) = mset (map fst vs')"
    and p: "processFields m vs = Inr m1" "processFields m' vs' = Inr m1'"
    and sm: "sameMap m m'"
    and g: "\<forall>n g. map_of m n = Some g \<longrightarrow> noSharedDescription (Enums g)"
      "\<forall>n g. map_of m' n = Some g \<longrightarrow> noSharedDescription (Enums g)"
  shows "sameMap m1 m1'"
proof -
  note w' = wellFormed_same [OF w same]
  from w w' have d: "distinct (map (\<lambda>fv. Name (fst fv)) vs)"
    "distinct (map (\<lambda>fv. Name (fst fv)) vs')" by (simp_all add: wellFormed_def)
  have fields: "set (map fst vs) = set (map fst vs')" using same by (rule mset_eq_setD)
  then have "Name ` fst ` set vs = Name ` fst ` set vs'" by simp
  then have names: "(\<lambda>fv. Name (fst fv)) ` set vs = (\<lambda>fv. Name (fst fv)) ` set vs'"
    by (simp add: image_image)
  from sm have k: "fst ` set m = fst ` set m'" by (simp add: sameMap_def)
  have k1: "fst ` set m1 = fst ` set m1'"
    using processFields_keys [OF r(1) p(1)] processFields_keys [OF r(2) p(2)] k names by simp
  note A = processFields_at_name [OF r(1) d(1) p(1)]
  note A' = processFields_at_name [OF r(2) d(2) p(2)]
  have "sameField h h'" if h: "map_of m1 n = Some h" "map_of m1' n = Some h'" for n h h'
  proof (cases "n \<in> (\<lambda>fv. Name (fst fv)) ` set vs")
    case False
    then have "\<forall>fv \<in> set vs. Name (fst fv) \<noteq> n" "\<forall>fv \<in> set vs'. Name (fst fv) \<noteq> n"
      using names by auto
    then have e: "map_of m n = Some h" "map_of m' n = Some h'" using A(1) A'(1) h by simp_all
    then show ?thesis using sm unfolding sameMap_def by blast
  next
    case True
    then obtain f v where fv: "(f, v) \<in> set vs" "Name f = n" by force
    then have "f \<in> set (map fst vs')" using fields by force
    then obtain v' where fv': "(f, v') \<in> set vs'" by force
    note wf = wellFormed_fields [OF w fv(1)]
    from r fv(1) fv' have rv: "rearranges v" "rearranges v'"
      by (auto simp: allRearrange_set)
    show ?thesis
    proof (cases "map_of m n")
      case None
      then have "map_of m' n = None" using k by (simp add: map_of_None_keys)
      then have "h = f" "h' = f" using A(2) [OF fv(1)] A'(2) [OF fv'] None fv(2) h by simp_all
      then show ?thesis using sameField_refl wf by simp
    next
      case (Some old)
      then have in_m: "n \<in> fst ` set m" using map_of_None_keys [of m n] by auto
      then have "map_of m' n \<noteq> None" using k map_of_None_keys [of m' n] by auto
      then obtain old' where old': "map_of m' n = Some old'" by auto
      have so: "sameField old old'" using sm Some old' unfolding sameMap_def by blast
      have "mergeField v old f = Inr h" using A(3) [OF fv(1)] Some fv(2) h by auto
      moreover have "mergeField v' old' f = Inr h'" using A'(3) [OF fv'] old' fv(2) h by auto
      moreover have "noSharedDescription (Enums old)" "noSharedDescription (Enums old')"
        using g Some old' by blast+
      ultimately show ?thesis
        using mergeField_sameField [OF rv _ _ so] wf by simp
    qed
  qed
  then show ?thesis using k1 unfolding sameMap_def by blast
qed

lemma visitsOf_Cons:
  "visitsOf ((p, Inr vs) # args) = vs @ visitsOf args" "visitsOf ((p, Inl e) # args) = visitsOf args"
  by (simp_all add: visitsOf_def)

lemma processFields_noShared:
  assumes "allRearrange vs" "wellFormed vs" "processFields m vs = Inr m1"
    "\<forall>n g. map_of m n = Some g \<longrightarrow> noSharedDescription (Enums g)"
  shows "\<forall>n g. map_of m1 n = Some g \<longrightarrow> noSharedDescription (Enums g)"
proof (intro allI impI)
  fix n g
  assume g: "map_of m1 n = Some g"
  show "noSharedDescription (Enums g)"
    using assms g
  proof (induction vs arbitrary: m)
    case Nil
    then show ?case by simp
  next
    case (Cons fv vs)
    obtain f v where fv: "fv = (f, v)" by (cases fv)
    with Cons.prems have r: "rearranges v" and rest: "allRearrange vs" by simp_all
    from Cons.prems(2) fv have wf: "wellFormed vs" "noSharedDescription (Enums f)"
      by (simp_all add: wellFormed_def)
    obtain h where h: "processField m (f, v) = Inr (AList.update (Name f) h m)"
        "map_of m (Name f) = None \<longrightarrow> h = f"
        "\<forall>old. map_of m (Name f) = Some old \<longrightarrow> mergeField v old f = Inr h"
      using processField_result [OF r, of m f] by auto
    with Cons.prems(3) fv have p: "processFields (AList.update (Name f) h m) vs = Inr m1" by simp
    have hh: "noSharedDescription (Enums h)"
    proof (cases "map_of m (Name f)")
      case None
      then show ?thesis using h(2) wf(2) by simp
    next
      case (Some old)
      then have "mergeField v old f = Inr h" using h(3) by simp
      then show ?thesis using mergeField_noSharedDescription [OF r _ wf(2)] by blast
    qed
    have "\<forall>n g. map_of (AList.update (Name f) h m) n = Some g \<longrightarrow>
            noSharedDescription (Enums g)"
      using Cons.prems(4) hh by (simp add: update_conv')
    from Cons.IH [OF rest wf(1) p this Cons.prems(5)] show ?case .
  qed
qed

lemma processDicts_sameMap:
  "list_all2 sameDictionary args args' \<Longrightarrow> allWellFormed args \<Longrightarrow>
   allRearrange (visitsOf args) \<Longrightarrow> allRearrange (visitsOf args') \<Longrightarrow>
   sameMap m m' \<Longrightarrow>
   \<forall>n g. map_of m n = Some g \<longrightarrow> noSharedDescription (Enums g) \<Longrightarrow>
   \<forall>n g. map_of m' n = Some g \<longrightarrow> noSharedDescription (Enums g) \<Longrightarrow>
   (\<exists>e. processDicts m args = Inl e \<and> processDicts m' args' = Inl e) \<or>
   (\<exists>m1 m1'. processDicts m args = Inr m1 \<and> processDicts m' args' = Inr m1' \<and> sameMap m1 m1')"
proof (induction arbitrary: m m' rule: list_all2_induct)
  case Nil
  then show ?case by simp
next
  case (Cons d args d' args')
  obtain p r where d: "d = (p, r)" by (cases d)
  obtain p' r' where d': "d' = (p', r')" by (cases d')
  show ?case
  proof (cases r)
    case (Inl e)
    then have "r' = Inl e" using Cons.hyps(1) d d'
      by (cases r') (simp_all add: sameDictionary_def)
    then show ?thesis using Inl d d' by simp
  next
    case (Inr vs)
    then obtain vs' where r': "r' = Inr vs'" and same: "mset (map fst vs) = mset (map fst vs')"
      using Cons.hyps(1) d d' by (cases r') (simp_all add: sameDictionary_def)
    from Cons.prems(1) d Inr have w: "wellFormed vs" and wr: "allWellFormed args"
      by (simp_all add: allWellFormed_def)
    from Cons.prems(2,3) d d' Inr r'
    have o: "allRearrange vs" "allRearrange (visitsOf args)"
      "allRearrange vs'" "allRearrange (visitsOf args')"
      by (simp_all add: visitsOf_Cons)
    obtain m1 where m1: "processFields m vs = Inr m1"
      using processFields_total [OF o(1)] by blast
    obtain m1' where m1': "processFields m' vs' = Inr m1'"
      using processFields_total [OF o(3)] by blast
    have sm: "sameMap m1 m1'"
      by (rule processFields_sameMap [OF o(1) o(3) w same m1 m1' Cons.prems(4,5,6)])
    have n1: "\<forall>n g. map_of m1 n = Some g \<longrightarrow> noSharedDescription (Enums g)"
      by (rule processFields_noShared [OF o(1) w m1 Cons.prems(5)])
    have n1': "\<forall>n g. map_of m1' n = Some g \<longrightarrow> noSharedDescription (Enums g)"
      by (rule processFields_noShared [OF o(3) wellFormed_same [OF w same] m1' Cons.prems(6)])
    from Cons.IH [OF wr o(2) o(4) sm n1 n1']
    show ?thesis using d d' Inr r' m1 m1' by simp
  qed
qed

lemma sortedFieldTypes_lookup:
  assumes "distinct (map fst m)" "\<forall>n g. map_of m n = Some g \<longrightarrow> Name g = n"
    "rearranges collect"
  shows "sortedFieldTypes collect m = map (\<lambda>n. the (map_of m n)) (sort (map fst m))"
proof -
  note S = sortedFieldTypes_names [OF assms]
  have "the (map_of m (Name g)) = g" if "g \<in> set (sortedFieldTypes collect m)" for g
  proof -
    from that have "g \<in> set (map snd m)" using S(3) by (metis mset_eq_setD)
    then obtain k where k: "(k, g) \<in> set m" by auto
    then have "map_of m k = Some g" using assms(1) by simp
    then show ?thesis using assms(2) by auto
  qed
  then have "map (\<lambda>n. the (map_of m n)) (map Name (sortedFieldTypes collect m)) =
        sortedFieldTypes collect m"
    by (simp add: map_idI)
  then show ?thesis unfolding S(1) by simp
qed

lemma sortedFieldTypes_sameMap:
  assumes d: "distinct (map fst m)" "distinct (map fst m')"
    and n: "\<forall>n g. map_of m n = Some g \<longrightarrow> Name g = n" "\<forall>n g. map_of m' n = Some g \<longrightarrow> Name g = n"
    and c: "rearranges collect" "rearranges collect'"
    and s: "sameMap m m'"
  shows "list_all2 sameField (sortedFieldTypes collect m) (sortedFieldTypes collect' m')"
proof -
  from s have k: "fst ` set m = fst ` set m'" by (simp add: sameMap_def)
  have srt: "sort (map fst m) = sort (map fst m')"
    by (rule sorted_distinct_set_unique) (simp_all add: d k)
  have "sameField (the (map_of m x)) (the (map_of m' x))" if "x \<in> set (sort (map fst m))" for x
  proof -
    from that have "x \<in> fst ` set m" "x \<in> fst ` set m'" using k by simp_all
    then obtain g g' where "map_of m x = Some g" "map_of m' x = Some g'"
      using map_of_None_keys [of m x] map_of_None_keys [of m' x] by auto
    then show ?thesis using s unfolding sameMap_def by auto
  qed
  then have "list_all2 sameField (map (\<lambda>n. the (map_of m n)) (sort (map fst m)))
     (map (\<lambda>n. the (map_of m' n)) (sort (map fst m)))"
    by (simp add: list_all2_map1 list_all2_map2 list_all2_same)
  then show ?thesis
    unfolding sortedFieldTypes_lookup [OF d(1) n(1) c(1)]
      sortedFieldTypes_lookup [OF d(2) n(2) c(2)] srt [symmetric] .
qed

lemma processDicts_Inr_parsed: "processDicts m args = Inr m1 \<Longrightarrow> allParsed args"
proof (induction args arbitrary: m)
  case Nil
  show ?case by (simp add: allParsed_def)
next
  case (Cons d args)
  obtain p r where d: "d = (p, r)" by (cases d)
  from Cons.prems d obtain vs m' where "r = Inr vs" "processDicts m' args = Inr m1"
    by (cases r) (auto split: sum.splits)
  then show ?case using Cons.IH d by (simp add: allParsed_def)
qed

lemma gen_rangeFieldTypeMap:
  "genTags (rt\<lparr>rangeFieldTypeMap := c\<rparr>) fts w = genTags rt fts w"
  "genFields (rt\<lparr>rangeFieldTypeMap := c\<rparr>) fts w = genFields rt fts w"
  "genEnums (rt\<lparr>rangeFieldTypeMap := c\<rparr>) fts w = genEnums rt fts w"
  by (simp_all add: genTags_def genFields_def genEnums_def split: sum.splits)

lemma emit_rangeFieldTypeMap:
  "emit (rt\<lparr>rangeFieldTypeMap := c\<rparr>) fts w = emit rt fts w"
  by (simp add: emit_eq gen_rangeFieldTypeMap)

lemma sameMap_Nil: "sameMap [] []"
  by (simp add: sameMap_def)

lemma main_same_dictionaries:
  assumes same: "list_all2 sameDictionary args args'" and wf: "allWellFormed args"
    and o: "allRearrange (visitsOf args)" "allRearrange (visitsOf args')"
    and c: "rearranges (rangeFieldTypeMap rt)" "rearranges collect'"
  shows "main (rt\<lparr>rangeFieldTypeMap := collect'\<rparr>) args' w = main rt args w"
proof (cases "args = []")
  case True
  then have "args' = []" using same by simp
  then show ?thesis using True by (simp add: main_def usage_def)
next
  case False
  then have ne: "args' \<noteq> []" using same by auto
  from processDicts_sameMap [OF same wf o sameMap_Nil]
  consider e where "processDicts [] args = Inl e" "processDicts [] args' = Inl e"
    | m1 m1' where "processDicts [] args = Inr m1" "processDicts [] args' = Inr m1'"
      "sameMap m1 m1'"
    by auto
  then show ?thesis
  proof cases
    case 1
    then show ?thesis using False ne by (simp add: main_def)
  next
    case 2
    note N = processDicts_names [OF processDicts_Inr_parsed [OF 2(1)] o(1) 2(1)]
    note N' = processDicts_names [OF processDicts_Inr_parsed [OF 2(2)] o(2) 2(2)]
    have "list_all2 sameField (sortedFieldTypes (rangeFieldTypeMap rt) m1)
        (sortedFieldTypes collect' m1')"
      by (rule sortedFieldTypes_sameMap [OF N(2) N'(2) N(3) N'(3) c 2(3)])
    from sameField_emit(4) [OF this, of rt w]
    show ?thesis using 2(1,2) False ne by (simp add: main_def emit_rangeFieldTypeMap)
  qed
qed

subsection \<open>The outputs line by line\<close>

lemma unlines_append: "unlines (a @ b) = unlines a @ unlines b"
  by (simp add: unlines_def)

lemma unlines_Cons: "unlines (l # ls) = l @ nl @ unlines ls"
  by (simp add: unlines_def)

lemma unlines_Nil: "unlines [] = []"
  by (simp add: unlines_def)

lemma unlines_concat: "unlines (concat lss) = concat (map unlines lss)"
  by (induction lss) (simp_all add: unlines_Nil unlines_append)

lemma interleaved:
  "l0 @ concat (map (\<lambda>x. nl @ g x) xs) @ nl @ rest = unlines (l0 # map g xs) @ rest"
proof (induction xs arbitrary: l0)
  case Nil
  show ?case by (simp add: unlines_Cons unlines_Nil)
next
  case (Cons x xs)
  have "l0 @ concat (map (\<lambda>x. nl @ g x) (x # xs)) @ nl @ rest =
        l0 @ nl @ (g x @ concat (map (\<lambda>x. nl @ g x) xs) @ nl @ rest)" by simp
  also have "\<dots> = l0 @ nl @ unlines (g x # map g xs) @ rest" by (simp only: Cons.IH)
  finally show ?case by (simp add: unlines_Cons)
qed

lemma tagTemplate_unlines: "tagTemplate fts = unlines (tagFile fts) @ tab"
proof -
  have e: "(\<lambda>f. nl @ tagLine f) = tagEntry"
    by (rule ext) (simp add: tagEntry_def tagLine_def)
  have "''const ('' @ concat (map tagEntry fts) @ nl @ ('')'' @ nl @ tab) =
        unlines (''const ('' # map tagLine fts) @ ('')'' @ nl @ tab)"
    using interleaved [of "''const (''" tagLine fts "'')'' @ nl @ tab"] by (simp only: e)
  then show ?thesis
    by (simp add: tagTemplate_def tagHead_def tagTail_def tagFile_def unlines_append
        unlines_Cons unlines_Nil)
qed

lemma enumEntry_unlines: "enumEntry f = unlines ([] # enumBlock f)"
proof (cases "entries (Enums f) = []")
  case True
  then show ?thesis by (simp add: enumEntry_def enumBlock_def len_def unlines_Cons unlines_Nil)
next
  case False
  have e: "(\<lambda>e. nl @ enumConst f e) = enumLine f"
    by (rule ext) (simp add: enumLine_def enumConst_def)
  have "[] @ concat (map (enumLine f) (rangeSorted (Enums f))) @ nl @ ('')'' @ nl) =
        unlines ([] # map (enumConst f) (rangeSorted (Enums f))) @ ('')'' @ nl)"
    using interleaved [of "[]" "enumConst f" "rangeSorted (Enums f)" "'')'' @ nl"]
    by (simp only: e)
  then show ?thesis using False
    by (simp add: enumEntry_def enumBlock_def len_def unlines_Cons unlines_Nil unlines_append
        rangeSorted_def)
qed

lemma enumTemplate_unlines: "enumTemplate fts = unlines (enumFile fts) @ tab"
proof -
  have "concat (map enumEntry fts) = unlines (concat (map (\<lambda>f. [] # enumBlock f) fts))"
  proof -
    have "enumEntry = (\<lambda>f. unlines ([] # enumBlock f))"
      by (rule ext) (rule enumEntry_unlines)
    then show ?thesis by (simp add: unlines_concat comp_def)
  qed
  then show ?thesis
    by (simp add: enumTemplate_def enumHead_def enumTail_def enumFile_def unlines_append
        unlines_Cons unlines_Nil)
qed

lemma splitLines_unlines:
  "list_all oneLine ls \<Longrightarrow> splitLines (unlines ls @ rest) = ls @ splitLines rest"
proof (induction ls)
  case Nil
  show ?case by (simp add: unlines_Nil)
next
  case (Cons l ls)
  from Cons.prems have ol: "oneLine l" and ls: "list_all oneLine ls" by simp_all
  from ol have l: "CHR 0x0A \<notin> set l" by (simp add: oneLine_def)
  have "splitLines (l @ nl @ unlines ls @ rest) = consLine l ([] # splitLines (unlines ls @ rest))"
    using splitLines_app [OF l] by (simp add: splitLines_nl)
  then show ?case using Cons.IH [OF ls] by (simp add: unlines_Cons)
qed

lemma splitLines_tab: "splitLines tab = [tab]"
  by (simp add: tab_def)

lemma oneLine_simps [simp]:
  "oneLine []" "oneLine (c # s) = (c \<noteq> CHR 0x0A \<and> oneLine s)"
  "oneLine (a @ b) = (oneLine a \<and> oneLine b)"
  by (auto simp: oneLine_def)

lemma oneLine_fmtInt: "oneLine (fmtInt i)"
  using fmtInt_no_newline by (simp add: oneLine_def)

lemma tagFile_oneLine:
  "list_all (\<lambda>f. oneLine (Name f)) fts \<Longrightarrow> list_all oneLine (tagFile fts)"
  by (simp add: tagFile_def tagLine_def dq_def oneLine_fmtInt list_all_iff)

lemma enumBlock_oneLine:
  assumes "plain f"
  shows "list_all oneLine (enumBlock f)"
proof -
  have "oneLine (enumConst f (snd kv))" if "kv \<in> set (entries (Enums f))" for kv
    using assms that by (auto simp: plain_def enumConst_def dq_def list_all_iff)
  then show ?thesis using assms
    by (auto simp: enumBlock_def plain_def list_all_iff)
qed

lemma enumFile_oneLine:
  "list_all plain fts \<Longrightarrow> list_all oneLine (enumFile fts)"
  using enumBlock_oneLine by (auto simp: enumFile_def list_all_iff)

lemma tagTemplate_lines:
  "list_all (\<lambda>f. oneLine (Name f)) fts \<Longrightarrow> splitLines (tagTemplate fts) = tagFile fts @ [tab]"
  using splitLines_unlines [OF tagFile_oneLine, of fts tab]
  by (simp add: tagTemplate_unlines splitLines_tab)

lemma enumTemplate_lines:
  "list_all plain fts \<Longrightarrow> splitLines (enumTemplate fts) = enumFile fts @ [tab]"
  using splitLines_unlines [OF enumFile_oneLine, of fts tab]
  by (simp add: enumTemplate_unlines splitLines_tab)

lemma typeLines_append:
  "typeLines (a @ CHR 0x0A # b) = typeLines a @ typeLines b"
  by (simp add: typeLines_def splitLines_after_newline)

lemma typeLines_Nil [simp]: "typeLines [] = []"
  by (simp add: typeLines_def)

lemma typeLines_block:
  assumes "t \<noteq> []" "last t = CHR 0x0A"
  shows "typeLines (t @ rest) = typeLines t @ typeLines rest"
proof -
  have t: "t = butlast t @ [CHR 0x0A]" using assms by (metis append_butlast_last_id)
  have "typeLines (t @ rest) = typeLines (butlast t @ CHR 0x0A # rest)"
    by (subst t) simp
  also have "\<dots> = typeLines (butlast t) @ typeLines rest"
    by (rule typeLines_append)
  also have "typeLines (butlast t) = typeLines t"
    using typeLines_append [of "butlast t" "[]"] t by simp
  finally show ?thesis .
qed

lemma block_typeLines:
  assumes n: "CHR 0x0A \<notin> set (Name f)" and t: "CHR 0x0A \<notin> set (Type f)"
    and b: "CHR 0x0A \<notin> set b"
  shows "typeLines (fieldHeading f b @ timestampConstructors f) =
           [''type '' @ Name f @ ''Field struct { quickfix.'' @ b @ '' }'']"
    and "CHR 0x0A \<notin> set (quickfixValueType b) \<Longrightarrow>
         typeLines (fieldHeading f b @ valueConstructor f b) =
           [''type '' @ Name f @ ''Field struct { quickfix.'' @ b @ '' }'']"
proof -
  note i = fmtInt_no_newline [of "Tag f"]
  have h: "splitLines (fieldHeading f b @ rest) =
     (''//'' @ Name f @ ''Field is a '' @ Type f @ '' field'') #
     (''type '' @ Name f @ ''Field struct { quickfix.'' @ b @ '' }'') # [] #
     (''//Tag returns tag.'' @ Name f @ '' ('' @ fmtInt (Tag f) @ '')'') #
     (''func (f '' @ Name f @ ''Field) Tag() quickfix.Tag { return tag.'' @ Name f @ '' }'') #
     [] # splitLines rest" for rest
    using n t i b
    by (simp add: fieldHeading_def splitLines_app splitLines_nl)
  have ts: "splitLines (timestampConstructors f) =
     [[CHR 0x20],
      ''//New'' @ Name f @ '' returns a new '' @ Name f @ ''Field initialized with val'',
      ''func New'' @ Name f @ ''(val time.Time) '' @ Name f @ ''Field {'',
      tab @ ''return '' @ Name f @ ''Field{ quickfix.FIXUTCTimestamp{ Time: val } } '',
      ''}'', [],
      ''//New'' @ Name f @ ''NoMillis returns a new '' @ Name f @
        ''Field initialized with val without millisecs'',
      ''func New'' @ Name f @ ''NoMillis(val time.Time) '' @ Name f @ ''Field {'',
      tab @ ''return '' @ Name f @
        ''Field{ quickfix.FIXUTCTimestamp{ Time: val, NoMillis: true } } '',
      ''}'', [], []]"
    using n by (simp add: timestampConstructors_def splitLines_app splitLines_nl tab_def)
  have vs: "splitLines (valueConstructor f b) =
     [[],
      ''//New'' @ Name f @ '' returns a new '' @ Name f @ ''Field initialized with val'',
      ''func New'' @ Name f @ ''(val '' @ quickfixValueType b @ '') '' @ Name f @ ''Field {'',
      tab @ ''return '' @ Name f @ ''Field{ quickfix.'' @ b @ ''(val) }'',
      ''}'', []]"
    if "CHR 0x0A \<notin> set (quickfixValueType b)"
    using n b that by (simp add: valueConstructor_def splitLines_app splitLines_nl tab_def)
  show "typeLines (fieldHeading f b @ timestampConstructors f) =
           [''type '' @ Name f @ ''Field struct { quickfix.'' @ b @ '' }'']"
    unfolding typeLines_def by (simp add: h ts tab_def)
  show "typeLines (fieldHeading f b @ valueConstructor f b) =
           [''type '' @ Name f @ ''Field struct { quickfix.'' @ b @ '' }'']"
    if "CHR 0x0A \<notin> set (quickfixValueType b)"
    unfolding typeLines_def by (simp add: h vs [OF that] tab_def)
qed

lemma fieldBlock_typeLines:
  assumes "fieldEntry f = Inr t" "CHR 0x0A \<notin> set (Name f)"
  shows "typeLines (fieldBlock f) = [typeLine f]"
proof -
  obtain b where b: "quickfixType f = (b, None)"
    using fieldEntry_Inr(2) [OF assms(1)] by (cases "quickfixType f") auto
  note ty = Type_no_newline [OF b]
  have bb: "b \<in> {''FIXString'', ''FIXBoolean'', ''FIXInt'', ''FIXUTCTimestamp'', ''FIXFloat''}"
    by (rule quickfixType_ok [OF b])
  then have nb: "CHR 0x0A \<notin> set b" "CHR 0x0A \<notin> set (quickfixValueType b)"
    by (auto simp: quickfixValueType_def)
  show ?thesis
    using b block_typeLines [OF assms(2) ty nb(1)] nb(2)
    by (simp add: fieldBlock_def typeLine_def)
qed

lemma blocks_typeLines:
  "\<forall>f \<in> set fts. (\<exists>t. fieldEntry f = Inr t) \<and> CHR 0x0A \<notin> set (Name f) \<Longrightarrow>
   typeLines (concat (map fieldBlock fts) @ rest) = map typeLine fts @ typeLines rest"
proof (induction fts)
  case Nil
  show ?case by simp
next
  case (Cons f fts)
  then obtain t where t: "fieldEntry f = Inr t" and n: "CHR 0x0A \<notin> set (Name f)" by auto
  have "typeLines (fieldBlock f @ concat (map fieldBlock fts) @ rest) =
        typeLines (fieldBlock f) @ typeLines (concat (map fieldBlock fts) @ rest)"
    by (rule typeLines_block [OF fieldBlock_ends])
  then show ?case using Cons fieldBlock_typeLines [OF t n] by simp
qed

lemma fieldHead_typeLines:
  "CHR 0x0A \<notin> set root \<Longrightarrow> typeLines (fieldHead root @ rest) = typeLines rest"
  by (simp add: typeLines_def fieldHead_def splitLines_app splitLines_nl tab_def dq_def)

lemma fieldTemplate_typeLines:
  assumes run: "fieldTemplate root fts = Inr out" and r: "oneLine root"
    and n: "list_all (\<lambda>f. oneLine (Name f)) fts"
  shows "out = fieldHead root @ concat (map fieldBlock fts) @ nl"
    and "typeLines out = map typeLine fts"
proof -
  from run obtain body where b: "fieldEntries fts = Inr body"
      "out = fieldHead root @ body @ nl"
    by (auto simp: fieldTemplate_def split: sum.splits)
  note B = fieldEntries_blocks [OF b(1)]
  show out: "out = fieldHead root @ concat (map fieldBlock fts) @ nl"
    using b(2) B by simp
  have "\<forall>f \<in> set fts. (\<exists>t. fieldEntry f = Inr t) \<and> CHR 0x0A \<notin> set (Name f)"
    using B n by (auto simp: list_all_iff oneLine_def)
  from blocks_typeLines [OF this, of nl]
  have "typeLines (concat (map fieldBlock fts) @ nl) = map typeLine fts"
    by (simp add: typeLines_def splitLines_nl)
  then show "typeLines out = map typeLine fts"
    unfolding out using fieldHead_typeLines [of root] r by (simp add: oneLine_def)
qed

lemma fieldTemplate_blocks:
  "fieldTemplate root fts = Inr out \<Longrightarrow> out = fieldHead root @ concat (map fieldBlock fts) @ nl"
  using fieldEntries_blocks [of fts] by (auto simp: fieldTemplate_def split: sum.splits)

lemma processFields_plain:
  assumes r: "allRearrange vs" and p: "processFields [] vs = Inr m"
    and pl: "list_all (\<lambda>fv. plain (fst fv)) vs" and g: "map_of m n = Some g"
  shows "plain g"
proof -
  have nm: "Name g = n" using processFields_named [OF r p] g by auto
  have "n \<in> fst ` set m" using g by (metis map_of_SomeD fst_conv image_eqI)
  then have "n \<in> (\<lambda>fv. Name (fst fv)) ` set vs" using processFields_keys [OF r p] by auto
  then obtain fv where fv: "fv \<in> set vs" "Name (fst fv) = n" by auto
  then have name: "oneLine (Name g)" using pl nm by (auto simp: list_all_iff plain_def)
  have "oneLine (Description (snd kv)) \<and> oneLine (Value (snd kv))"
    if kv: "kv \<in> set (entries (Enums g))" for kv
  proof -
    from processFields_provenance [OF r p g kv]
    obtain pre f v post where "vs = pre @ (f, v) # post" "kv \<in> set (entries (Enums f))"
      by blast
    then have "plain f" using pl by (auto simp: list_all_iff)
    then show ?thesis using \<open>kv \<in> set (entries (Enums f))\<close>
      by (auto simp: plain_def list_all_iff)
  qed
  with name show ?thesis by (auto simp: plain_def list_all_iff)
qed

lemma sortedFieldTypes_plain:
  assumes parsed: "allParsed args" and orders: "allRearrange (visitsOf args)"
    and run: "processDicts [] args = Inr m"
    and pl: "list_all (\<lambda>fv. plain (fst fv)) (visitsOf args)"
    and fts: "mset fts = mset (map snd m)"
  shows "list_all plain fts"
proof -
  from run have p: "processFields [] (visitsOf args) = Inr m"
    by (simp add: processDicts_flat [OF parsed])
  note N = processDicts_names [OF parsed orders run]
  have "plain g" if "g \<in> set fts" for g
  proof -
    from that fts have "g \<in> set (map snd m)" by (metis set_mset_mset)
    then obtain n where "(n, g) \<in> set m" by auto
    then have "map_of m n = Some g" using N(2) by simp
    then show ?thesis by (rule processFields_plain [OF orders p pl])
  qed
  then show ?thesis by (simp add: list_all_iff)
qed

lemma plain_names: "list_all plain fts \<Longrightarrow> list_all (\<lambda>f. oneLine (Name f)) fts"
  by (simp add: list_all_iff plain_def)

section \<open>Properties\<close>

text \<open>
  C1: as the claim states it, for every two dictionary sources old and new merged in that
  order and every field name defined in both, each entry of old's enums whose value is
  not a key of new's enums is in the merged enums unless an entry of new has its
  description, and then it is absent; every entry of new is in the merged enums
  unchanged. The code does this when no two entries of old's enums share a description:
  the loop of line 258 looks through the enums of the new field as they are by then,
  with the entries of old already copied, so of two entries of old with one description
  only the one visited first is copied (the example after the witness). The
  statement proved has that hypothesis; each source defines the name once.
\<close>

theorem C1_merged_enums_of_two_sources:
  assumes orders: "allRearrange (old @ new)"
    and names_old: "distinct (map (\<lambda>fv. Name (fst fv)) old)"
    and names_new: "distinct (map (\<lambda>fv. Name (fst fv)) new)"
    and in_old: "(fo, vo) \<in> set old" and in_new: "(fn, vn) \<in> set new"
    and same: "Name fo = Name fn"
    and maps: "isMap (Enums fo)" "isMap (Enums fn)"
    and descs: "noSharedDescription (Enums fo)"
  shows "\<exists>m g. processDicts [] [(p, Inr old), (q, Inr new)] = Inr m \<and>
           map_of m (Name fn) = Some g \<and>
           (\<forall>k e. lookup (Enums fo) k = Some e \<and> lookup (Enums fn) k = None \<longrightarrow>
              lookup (Enums g) k =
                (if Description e \<in> descriptions (Enums fn) then None else Some e)) \<and>
           (\<forall>k e. lookup (Enums fn) k = Some e \<longrightarrow> lookup (Enums g) k = Some e)"
proof -
  from orders have ro: "allRearrange old" and rn: "allRearrange new" by simp_all
  obtain pre1 post1 where o: "old = pre1 @ (fo, vo) # post1"
      "\<forall>fv \<in> set pre1. Name (fst fv) \<noteq> Name fo" "\<forall>fv \<in> set post1. Name (fst fv) \<noteq> Name fo"
    using split_distinct_names [OF names_old in_old] by blast
  obtain pre2 post2 where n: "new = pre2 @ (fn, vn) # post2"
      "\<forall>fv \<in> set pre2. Name (fst fv) \<noteq> Name fn" "\<forall>fv \<in> set post2. Name (fst fv) \<noteq> Name fn"
    using split_distinct_names [OF names_new in_new] by blast
  from ro o(1) have rpre1: "allRearrange pre1" by simp
  from rn n(1) have rpre2: "allRearrange pre2" and rvn: "rearranges vn" by simp_all
  obtain m0 g1 m1 where 1: "processFields [] pre1 = Inr m0"
      "processFields [] (pre1 @ (fo, vo) # post1) = Inr m1" "map_of m1 (Name fo) = Some g1"
      "map_of m0 (Name fo) = None \<longrightarrow> g1 = fo"
    using processFields_last [OF ro [unfolded o(1)] o(3), of "[]"] by auto
  have "map_of m0 (Name fo) = None"
    using processFields_other [OF rpre1 1(1) o(2)] by simp
  with 1 have m1: "processFields [] old = Inr m1" "map_of m1 (Name fn) = Some fo"
    using o(1) same by simp_all
  obtain m2 g m where 2: "processFields m1 pre2 = Inr m2"
      "processFields m1 (pre2 @ (fn, vn) # post2) = Inr m" "map_of m (Name fn) = Some g"
      "\<forall>old. map_of m2 (Name fn) = Some old \<longrightarrow> mergeField vn old fn = Inr g"
    using processFields_last [OF rn [unfolded n(1)] n(3), of m1] by auto
  have "map_of m2 (Name fn) = Some fo"
    using processFields_other [OF rpre2 2(1) n(2)] m1(2) by simp
  with 2(4) have mg: "mergeField vn fo fn = Inr g" by simp
  have run: "processDicts [] [(p, Inr old), (q, Inr new)] = Inr m"
    using m1(1) 2(2) n(1)
    by (simp add: processDicts_flat [OF allParsed_two] visitsOf_two processFields_append)
  note L = mergeField_lookup [OF rvn mg maps]
  have a: "\<forall>k e. lookup (Enums fo) k = Some e \<and> lookup (Enums fn) k = None \<longrightarrow>
              lookup (Enums g) k =
                (if Description e \<in> descriptions (Enums fn) then None else Some e)"
    using L(2) L(3) [OF descs] by simp
  have b: "\<forall>k e. lookup (Enums fn) k = Some e \<longrightarrow> lookup (Enums g) k = Some e"
    using L(1) by simp
  from run 2(3) a b show ?thesis by - (rule exI [of _ m], rule exI [of _ g], simp)
qed

theorem C1_merged_enums_witness:
  "processDicts [] [(''FIX42.xml'', Inr [(fString, id), (sellOld, rev)]),
                    (''FIX43.xml'', Inr [(sellShortNew, rev)])] =
     Inr [(''Account'', fString),
          (''Side'', side (Some [entry ''1'' ''Buy'', entry ''3'' ''SellShort'', entry ''2'' ''Sell'']))] \<and>
   processDicts [] [(''FIX42.xml'', Inr [(fString, id), (sellOld, rev)]),
                    (''FIX43.xml'', Inr [(sellNew, id)])] =
     Inr [(''Account'', fString), (''Side'', sellNew)] \<and>
   lookup (Enums sellOld) ''2'' = Some \<lparr>Value = ''2'', Description = ''Sell''\<rparr> \<and>
   lookup (Enums sellNew) ''2'' = None \<and> ''Sell'' \<in> descriptions (Enums sellNew) \<and>
   ''Sell'' \<notin> descriptions (Enums sellShortNew)"
proof -
  have h1: "allRearrange ([(fString, id), (sellOld, rev)] @ [(sellShortNew, rev)])"
    and h1': "allRearrange ([(fString, id), (sellOld, rev)] @ [(sellNew, id)])"
    by (simp_all add: rearranges_id rearranges_rev)
  have h2: "distinct (map (\<lambda>fv. Name (fst fv)) [(fString, id), (sellOld, rev)])"
    by (simp add: run_simps)
  have h3: "distinct (map (\<lambda>fv. Name (fst fv)) [(sellShortNew, rev :: Enum order)])"
    and h3': "distinct (map (\<lambda>fv. Name (fst fv)) [(sellNew, id :: Enum order)])" by simp_all
  have h4: "(sellOld, rev) \<in> set [(fString, id), (sellOld, rev)]" by simp
  have h5: "(sellShortNew, rev) \<in> set [(sellShortNew, rev)]"
    and h5': "(sellNew, id) \<in> set [(sellNew, id)]" by simp_all
  have h6: "Name sellOld = Name sellShortNew" and h6': "Name sellOld = Name sellNew"
    by (simp_all add: run_simps)
  have h7: "isMap (Enums sellOld)" "isMap (Enums sellShortNew)"
    and h7': "isMap (Enums sellOld)" "isMap (Enums sellNew)"
    by (simp_all add: isMap_def run_simps)
  have h8: "noSharedDescription (Enums sellOld)"
    by (simp add: noSharedDescription_def run_simps)
  note A = C1_merged_enums_of_two_sources [OF h1 h2 h3 h4 h5 h6 h7 h8,
      of "''FIX42.xml''" "''FIX43.xml''"]
  note B = C1_merged_enums_of_two_sources [OF h1' h2 h3' h4 h5' h6' h7' h8,
      of "''FIX42.xml''" "''FIX43.xml''"]
  show ?thesis using A B by (simp add: run_simps descriptions_def)
qed

theorem C1_old_with_shared_description:
  "processDicts [] [(''FIX40.xml'', Inr [(dupOld, id)]), (''FIX41.xml'', Inr [(otherNew, id)])] =
     Inr [(''Side'', side (Some [entry ''3'' ''B'', entry ''1'' ''A'']))] \<and>
   processDicts [] [(''FIX40.xml'', Inr [(dupOld, id)]), (''FIX41.xml'', Inr [(otherNew, rev)])] =
     Inr [(''Side'', side (Some [entry ''3'' ''B'', entry ''2'' ''A'']))] \<and>
   lookup (Enums dupOld) ''1'' = Some \<lparr>Value = ''1'', Description = ''A''\<rparr> \<and>
   lookup (Enums dupOld) ''2'' = Some \<lparr>Value = ''2'', Description = ''A''\<rparr> \<and>
   lookup (Enums otherNew) ''1'' = None \<and> lookup (Enums otherNew) ''2'' = None \<and>
   ''A'' \<notin> descriptions (Enums otherNew) \<and>
   lookup (Enums (side (Some [entry ''3'' ''B'', entry ''1'' ''A'']))) ''2'' = None \<and>
   lookup (Enums (side (Some [entry ''3'' ''B'', entry ''2'' ''A'']))) ''1'' = None"
  by (simp add: run_simps descriptions_def)

text \<open>
  C2: \<^verbatim>\<open>quickfixType\<close> is a function of the declared type name and the tag of the
  field alone. For each name of its fixed set it returns the same category without an
  error (\<^verbatim>\<open>STRING\<close> gives \<^verbatim>\<open>FIXString\<close>), a result that does not depend on the tag;
  for every other name it returns no category and an error whose text holds the type
  name and the tag.
\<close>

theorem C2_quickfixType_deterministic:
  "(Type f \<in> {''MULTIPLESTRINGVALUE'', ''MULTIPLEVALUESTRING'',
          ''MULTIPLECHARVALUE'', ''CHAR'', ''CURRENCY'', ''DATA'', ''MONTHYEAR'',
          ''LOCALMKTDATE'', ''TIME'', ''DATE'', ''EXCHANGE'', ''LANGUAGE'', ''XMLDATA'',
          ''COUNTRY'', ''UTCTIMEONLY'', ''UTCDATE'', ''UTCDATEONLY'', ''TZTIMEONLY'',
          ''TZTIMESTAMP'', ''STRING''} \<longrightarrow> quickfixType f = (''FIXString'', None)) \<and>
   (Type f = ''BOOLEAN'' \<longrightarrow> quickfixType f = (''FIXBoolean'', None)) \<and>
   (Type f \<in> {''LENGTH'', ''DAYOFMONTH'', ''NUMINGROUP'', ''SEQNUM'', ''INT''}
      \<longrightarrow> quickfixType f = (''FIXInt'', None)) \<and>
   (Type f = ''UTCTIMESTAMP'' \<longrightarrow> quickfixType f = (''FIXUTCTimestamp'', None)) \<and>
   (Type f \<in> {''QTY'', ''QUANTITY'', ''AMT'', ''PRICE'', ''PRICEOFFSET'', ''PERCENTAGE'', ''FLOAT''}
      \<longrightarrow> quickfixType f = (''FIXFloat'', None)) \<and>
   (Type f \<notin> {''MULTIPLESTRINGVALUE'', ''MULTIPLEVALUESTRING'',
          ''MULTIPLECHARVALUE'', ''CHAR'', ''CURRENCY'', ''DATA'', ''MONTHYEAR'',
          ''LOCALMKTDATE'', ''TIME'', ''DATE'', ''EXCHANGE'', ''LANGUAGE'', ''XMLDATA'',
          ''COUNTRY'', ''UTCTIMEONLY'', ''UTCDATE'', ''UTCDATEONLY'', ''TZTIMEONLY'',
          ''TZTIMESTAMP'', ''STRING'', ''BOOLEAN'', ''LENGTH'', ''DAYOFMONTH'', ''NUMINGROUP'',
          ''SEQNUM'', ''INT'', ''UTCTIMESTAMP'', ''QTY'', ''QUANTITY'', ''AMT'', ''PRICE'',
          ''PRICEOFFSET'', ''PERCENTAGE'', ''FLOAT''}
      \<longrightarrow> quickfixType f = ([], Some (Errorf (unknownTypeText (Type f) (Tag f)))) \<and>
          sublist (Type f) (unknownTypeText (Type f) (Tag f)) \<and>
          sublist (fmtInt (Tag f)) (unknownTypeText (Type f) (Tag f))) \<and>
   (\<forall>g. Type g = Type f \<and> Tag g = Tag f \<longrightarrow> quickfixType g = quickfixType f) \<and>
   (\<forall>g. Type g = Type f \<and> snd (quickfixType f) = None \<longrightarrow> quickfixType g = quickfixType f)"
proof -
  have s1: "sublist (Type f) (unknownTypeText (Type f) (Tag f))"
    unfolding unknownTypeText_def sublist_def
    by (rule exI [of _ "''Unknown type '' @ sq"]) auto
  have s2: "sublist (fmtInt (Tag f)) (unknownTypeText (Type f) (Tag f))"
    unfolding unknownTypeText_def sublist_def
    by (rule exI [of _ "''Unknown type '' @ sq @ Type f @ sq @ '' for tag '' @ sq"]) auto
  have d1: "\<forall>g. Type g = Type f \<and> Tag g = Tag f \<longrightarrow> quickfixType g = quickfixType f"
    by (simp add: quickfixType_def)
  have d2: "\<forall>g. Type g = Type f \<and> snd (quickfixType f) = None \<longrightarrow> quickfixType g = quickfixType f"
    unfolding quickfixType_def by simp
  show ?thesis
    apply (intro conjI)
           apply (simp add: quickfixType_def)
          apply (simp add: quickfixType_def)
         apply (simp add: quickfixType_def)
    subgoal by (simp add: quickfixType_def)
    subgoal by (auto simp: quickfixType_def)
    subgoal using s1 s2 by (simp add: quickfixType_def)
    subgoal by (rule d1)
    subgoal by (rule d2)
    done
qed

theorem C2_quickfixType_witness:
  "Type fString \<in> {''MULTIPLESTRINGVALUE'', ''MULTIPLEVALUESTRING'',
          ''MULTIPLECHARVALUE'', ''CHAR'', ''CURRENCY'', ''DATA'', ''MONTHYEAR'',
          ''LOCALMKTDATE'', ''TIME'', ''DATE'', ''EXCHANGE'', ''LANGUAGE'', ''XMLDATA'',
          ''COUNTRY'', ''UTCTIMEONLY'', ''UTCDATE'', ''UTCDATEONLY'', ''TZTIMEONLY'',
          ''TZTIMESTAMP'', ''STRING''} \<and>
   quickfixType fString = (''FIXString'', None) \<and>
   Type fInt \<in> {''LENGTH'', ''DAYOFMONTH'', ''NUMINGROUP'', ''SEQNUM'', ''INT''} \<and>
   quickfixType fInt = (''FIXInt'', None) \<and>
   quickfixType fBogus = ([], Some (Errorf (unknownTypeText ''BOGUSTYPE'' 9999))) \<and>
   sublist ''BOGUSTYPE'' (unknownTypeText ''BOGUSTYPE'' 9999) \<and>
   sublist (fmtInt 9999) (unknownTypeText ''BOGUSTYPE'' 9999) \<and>
   fmtInt 9999 = ''9999'' \<and>
   quickfixType (fString\<lparr>Tag := 2\<rparr>) = quickfixType fString"
proof -
  have h1: "Type fString \<in> {''MULTIPLESTRINGVALUE'', ''MULTIPLEVALUESTRING'',
          ''MULTIPLECHARVALUE'', ''CHAR'', ''CURRENCY'', ''DATA'', ''MONTHYEAR'',
          ''LOCALMKTDATE'', ''TIME'', ''DATE'', ''EXCHANGE'', ''LANGUAGE'', ''XMLDATA'',
          ''COUNTRY'', ''UTCTIMEONLY'', ''UTCDATE'', ''UTCDATEONLY'', ''TZTIMEONLY'',
          ''TZTIMESTAMP'', ''STRING''}"
    by (simp add: fString_def)
  have h2: "Type fInt \<in> {''LENGTH'', ''DAYOFMONTH'', ''NUMINGROUP'', ''SEQNUM'', ''INT''}"
    by (simp add: fInt_def)
  have h3: "Type fBogus \<notin> {''MULTIPLESTRINGVALUE'', ''MULTIPLEVALUESTRING'',
          ''MULTIPLECHARVALUE'', ''CHAR'', ''CURRENCY'', ''DATA'', ''MONTHYEAR'',
          ''LOCALMKTDATE'', ''TIME'', ''DATE'', ''EXCHANGE'', ''LANGUAGE'', ''XMLDATA'',
          ''COUNTRY'', ''UTCTIMEONLY'', ''UTCDATE'', ''UTCDATEONLY'', ''TZTIMEONLY'',
          ''TZTIMESTAMP'', ''STRING'', ''BOOLEAN'', ''LENGTH'', ''DAYOFMONTH'', ''NUMINGROUP'',
          ''SEQNUM'', ''INT'', ''UTCTIMESTAMP'', ''QTY'', ''QUANTITY'', ''AMT'', ''PRICE'',
          ''PRICEOFFSET'', ''PERCENTAGE'', ''FLOAT''}"
    by (simp add: fBogus_def)
  have h4: "Type (fString\<lparr>Tag := 2\<rparr>) = Type fString \<and> snd (quickfixType fString) = None"
    by (simp add: fString_def quickfixType_def)
  have b: "Type fBogus = ''BOGUSTYPE''" "Tag fBogus = 9999" by (simp_all add: fBogus_def)
  note s = C2_quickfixType_deterministic [of fString]
  note i = C2_quickfixType_deterministic [of fInt]
  note u = C2_quickfixType_deterministic [of fBogus]
  have r1: "quickfixType fString = (''FIXString'', None)"
    using s [THEN conjunct1] h1 by (rule mp)
  have r2: "quickfixType fInt = (''FIXInt'', None)"
    using i [THEN conjunct2, THEN conjunct2, THEN conjunct1] h2 by (rule mp)
  have r3: "quickfixType fBogus = ([], Some (Errorf (unknownTypeText (Type fBogus) (Tag fBogus)))) \<and>
          sublist (Type fBogus) (unknownTypeText (Type fBogus) (Tag fBogus)) \<and>
          sublist (fmtInt (Tag fBogus)) (unknownTypeText (Type fBogus) (Tag fBogus))"
    using u [THEN conjunct2, THEN conjunct2, THEN conjunct2, THEN conjunct2, THEN conjunct2,
        THEN conjunct1] h3 by (rule mp)
  have r4: "quickfixType (fString\<lparr>Tag := 2\<rparr>) = quickfixType fString"
    using s [THEN conjunct2, THEN conjunct2, THEN conjunct2, THEN conjunct2, THEN conjunct2,
        THEN conjunct2, THEN conjunct2, THEN spec, of "fString\<lparr>Tag := 2\<rparr>"] h4 by (rule mp)
  have t: "fmtInt 9999 = ''9999''" by (simp add: fmtInt_def digits.simps)
  from r3 have r3': "quickfixType fBogus = ([], Some (Errorf (unknownTypeText ''BOGUSTYPE'' 9999))) \<and>
          sublist ''BOGUSTYPE'' (unknownTypeText ''BOGUSTYPE'' 9999) \<and>
          sublist (fmtInt 9999) (unknownTypeText ''BOGUSTYPE'' 9999)"
    unfolding b .
  from h1 r1 h2 r2 r3' t r4 show ?thesis by blast
qed

text \<open>
  C3: as the claim states it, each of the three emitters is a function of the merged
  list of field types, and two runs of the generator on the same dictionaries write the
  same three files, the enum constants of a field in the same order. The first holds:
  lists with the same content give the same three texts, whatever the order of the
  entries inside the maps of enums, for the enum template visits a map in ascending
  order of the keys. The second fails where two runs merge the same dictionaries to
  different field types (the example after the witness): the loop of line 254 visits the old
  enums in an order that varies, and of two old enums with one description it copies the
  one it visits first. The statement proved adds what excludes this: no field of the
  dictionaries has two enums with one description, and no dictionary defines a name
  twice.
\<close>

theorem C3_emitters_deterministic:
  "(list_all2 sameField fts fts' \<longrightarrow>
      tagTemplate fts = tagTemplate fts' \<and>
      fieldTemplate root fts = fieldTemplate root fts' \<and>
      enumTemplate fts = enumTemplate fts' \<and>
      genTags rt fts w = genTags rt fts' w \<and>
      genFields rt fts w = genFields rt fts' w \<and>
      genEnums rt fts w = genEnums rt fts' w \<and>
      emit rt fts w = emit rt fts' w) \<and>
   (isMap (Enums f) \<longrightarrow>
      rangeSorted (Enums f) = map snd (sort_key fst (entries (Enums f))) \<and>
      sorted_wrt (<) (map fst (sort_key fst (entries (Enums f))))) \<and>
   (list_all2 sameDictionary args args' \<and> allWellFormed args \<and>
    allRearrange (visitsOf args) \<and> allRearrange (visitsOf args') \<and>
    rearranges (rangeFieldTypeMap rt) \<and> rearranges collect'
      \<longrightarrow> main (rt\<lparr>rangeFieldTypeMap := collect'\<rparr>) args' w = main rt args w)"
proof (intro conjI impI)
  assume s: "list_all2 sameField fts fts'"
  show "tagTemplate fts = tagTemplate fts'" "fieldTemplate root fts = fieldTemplate root fts'"
    "enumTemplate fts = enumTemplate fts'"
    by (rule sameField_templates [OF s])+
  show "genTags rt fts w = genTags rt fts' w" "genFields rt fts w = genFields rt fts' w"
    "genEnums rt fts w = genEnums rt fts' w" "emit rt fts w = emit rt fts' w"
    by (rule sameField_emit [OF s])+
next
  assume "isMap (Enums f)"
  then show "sorted_wrt (<) (map fst (sort_key fst (entries (Enums f))))"
    by (rule rangeSorted_keys)
  show "rangeSorted (Enums f) = map snd (sort_key fst (entries (Enums f)))"
    by (simp add: rangeSorted_def)
next
  assume "list_all2 sameDictionary args args' \<and> allWellFormed args \<and>
    allRearrange (visitsOf args) \<and> allRearrange (visitsOf args') \<and>
    rearranges (rangeFieldTypeMap rt) \<and> rearranges collect'"
  then show "main (rt\<lparr>rangeFieldTypeMap := collect'\<rparr>) args' w = main rt args w"
    by (elim conjE) (rule main_same_dictionaries)
qed

theorem C3_emitters_deterministic_witness:
  "list_all2 sameField [side (Some [entry ''2'' ''Sell'', entry ''1'' ''Buy''])] [sellOld] \<and>
   enumTemplate [side (Some [entry ''2'' ''Sell'', entry ''1'' ''Buy''])] = enumTemplate [sellOld] \<and>
   isMap (Enums sellOld) \<and>
   rangeSorted (Enums (side (Some [entry ''2'' ''Sell'', entry ''1'' ''Buy'']))) =
     [snd (entry ''1'' ''Buy''), snd (entry ''2'' ''Sell'')] \<and>
   list_all2 sameDictionary
     [(''FIX42.xml'', Inr [(sellOld, id), (fString, id)]), (''FIX43.xml'', Inr [(sellShortNew, id)])]
     [(''FIX42.xml'', Inr [(fString, id), (sellOld, id)]), (''FIX43.xml'', Inr [(sellShortNew, rev)])] \<and>
   allWellFormed
     [(''FIX42.xml'', Inr [(sellOld, id), (fString, id)]), (''FIX43.xml'', Inr [(sellShortNew, id)])] \<and>
   main (runtime0\<lparr>rangeFieldTypeMap := rev\<rparr>)
     [(''FIX42.xml'', Inr [(fString, id), (sellOld, id)]), (''FIX43.xml'', Inr [(sellShortNew, rev)])] [] =
   main runtime0
     [(''FIX42.xml'', Inr [(sellOld, id), (fString, id)]), (''FIX43.xml'', Inr [(sellShortNew, id)])] []"
proof -
  let ?args = "[(''FIX42.xml'', Inr [(sellOld, id), (fString, id)]),
                (''FIX43.xml'', Inr [(sellShortNew, id)])]"
  let ?args' = "[(''FIX42.xml'', Inr [(fString, id), (sellOld, id)]),
                 (''FIX43.xml'', Inr [(sellShortNew, rev)])]"
  let ?f = "side (Some [entry ''2'' ''Sell'', entry ''1'' ''Buy''])"
  note T = C3_emitters_deterministic [of "[?f]" "[sellOld]" "[]" runtime0 "[]" sellOld
      ?args ?args' rev]
  have h1: "list_all2 sameField [?f] [sellOld]"
    by (simp add: sameField_def isMap_def run_simps) (auto simp: entry_def)
  have h2: "isMap (Enums sellOld)" by (simp add: isMap_def run_simps)
  have h3: "list_all2 sameDictionary ?args ?args'"
    by (simp add: sameDictionary_def add_mset_commute)
  have h4: "allWellFormed ?args"
    by (simp add: allWellFormed_def wellFormed_def isMap_def noSharedDescription_def run_simps)
  have h5: "allRearrange (visitsOf ?args)" "allRearrange (visitsOf ?args')"
    by (simp_all add: visitsOf_def rearranges_id rearranges_rev)
  have h6: "rearranges (rangeFieldTypeMap runtime0)" "rearranges (rev :: FieldType order)"
    by (simp_all add: runtime0_def rearranges_id rearranges_rev)
  have r1: "enumTemplate [?f] = enumTemplate [sellOld]"
    using T [THEN conjunct1, THEN mp, OF h1] by simp
  have r2: "rangeSorted (Enums ?f) = [snd (entry ''1'' ''Buy''), snd (entry ''2'' ''Sell'')]"
    by (simp add: rangeSorted_def run_simps)
  have r3: "main (runtime0\<lparr>rangeFieldTypeMap := rev\<rparr>) ?args' [] = main runtime0 ?args []"
    using T [THEN conjunct2, THEN conjunct2, THEN mp] h3 h4 h5 h6 by blast
  from h1 r1 h2 r2 h3 h4 r3 show ?thesis by blast
qed

theorem C3_runs_differ:
  "list_all2 sameDictionary
     [(''FIX40.xml'', Inr [(dupOld, id)]), (''FIX41.xml'', Inr [(otherNew, id)])]
     [(''FIX40.xml'', Inr [(dupOld, id)]), (''FIX41.xml'', Inr [(otherNew, rev)])] \<and>
   main runtime0 [(''FIX40.xml'', Inr [(dupOld, id)]), (''FIX41.xml'', Inr [(otherNew, id)])] [] =
     Exit 0 [(''tag/tag_numbers.go'', tagTemplate [side (Some [entry ''3'' ''B'', entry ''1'' ''A''])]),
             (''field/fields.go'', fieldHead ''github.com/quickfixgo/quickfix'' @
                fieldBlock (side (Some [entry ''3'' ''B'', entry ''1'' ''A''])) @ nl),
             (''enum/enums.go'', enumTemplate [side (Some [entry ''3'' ''B'', entry ''1'' ''A''])])] \<and>
   main runtime0 [(''FIX40.xml'', Inr [(dupOld, id)]), (''FIX41.xml'', Inr [(otherNew, rev)])] [] =
     Exit 0 [(''tag/tag_numbers.go'', tagTemplate [side (Some [entry ''3'' ''B'', entry ''2'' ''A''])]),
             (''field/fields.go'', fieldHead ''github.com/quickfixgo/quickfix'' @
                fieldBlock (side (Some [entry ''3'' ''B'', entry ''2'' ''A''])) @ nl),
             (''enum/enums.go'', enumTemplate [side (Some [entry ''3'' ''B'', entry ''2'' ''A''])])] \<and>
   enumTemplate [side (Some [entry ''3'' ''B'', entry ''1'' ''A''])] =
     enumHead @ nl @ '' '' @ nl @ ''//Enum values for Side'' @ nl @ ''const('' @ nl @ nl @
     ''Side_A = '' @ dq @ ''1'' @ dq @ nl @ ''Side_B = '' @ dq @ ''3'' @ dq @ nl @ '')'' @ nl @
     enumTail \<and>
   enumTemplate [side (Some [entry ''3'' ''B'', entry ''2'' ''A''])] =
     enumHead @ nl @ '' '' @ nl @ ''//Enum values for Side'' @ nl @ ''const('' @ nl @ nl @
     ''Side_A = '' @ dq @ ''2'' @ dq @ nl @ ''Side_B = '' @ dq @ ''3'' @ dq @ nl @ '')'' @ nl @
     enumTail \<and>
   enumTemplate [side (Some [entry ''3'' ''B'', entry ''1'' ''A''])] \<noteq>
   enumTemplate [side (Some [entry ''3'' ''B'', entry ''2'' ''A''])]"
proof -
  let ?g1 = "side (Some [entry ''3'' ''B'', entry ''1'' ''A''])"
  let ?g2 = "side (Some [entry ''3'' ''B'', entry ''2'' ''A''])"
  have same: "list_all2 sameDictionary
     [(''FIX40.xml'', Inr [(dupOld, id)]), (''FIX41.xml'', Inr [(otherNew, id)])]
     [(''FIX40.xml'', Inr [(dupOld, id)]), (''FIX41.xml'', Inr [(otherNew, rev)])]"
    by (simp add: sameDictionary_def)
  have p1: "processDicts [] [(''FIX40.xml'', Inr [(dupOld, id)]), (''FIX41.xml'', Inr [(otherNew, id)])] =
     Inr [(''Side'', ?g1)]"
    and p2: "processDicts [] [(''FIX40.xml'', Inr [(dupOld, id)]), (''FIX41.xml'', Inr [(otherNew, rev)])] =
     Inr [(''Side'', ?g2)]"
    by (simp_all add: run_simps)
  have q: "quickfixType ?g1 = (''FIXString'', None)" "quickfixType ?g2 = (''FIXString'', None)"
    by (simp_all add: quickfixType_def side_def)
  have ft: "fieldTemplate ''github.com/quickfixgo/quickfix'' [?g1] =
      Inr (fieldHead ''github.com/quickfixgo/quickfix'' @ fieldBlock ?g1 @ nl)"
    "fieldTemplate ''github.com/quickfixgo/quickfix'' [?g2] =
      Inr (fieldHead ''github.com/quickfixgo/quickfix'' @ fieldBlock ?g2 @ nl)"
    by (simp_all add: fieldTemplate_def fieldEntry_def fieldBlock_def q) (simp_all add: side_def)
  have s: "sortedFieldTypes id [(''Side'', ?g1)] = [?g1]" "sortedFieldTypes id [(''Side'', ?g2)] = [?g2]"
    by (simp_all add: sortedFieldTypes_def)
  have m1: "main runtime0 [(''FIX40.xml'', Inr [(dupOld, id)]), (''FIX41.xml'', Inr [(otherNew, id)])] [] =
     Exit 0 [(''tag/tag_numbers.go'', tagTemplate [?g1]),
             (''field/fields.go'', fieldHead ''github.com/quickfixgo/quickfix'' @ fieldBlock ?g1 @ nl),
             (''enum/enums.go'', enumTemplate [?g1])]"
    by (simp add: main_def p1 s emit_eq genTags_def genFields_def genEnums_def ft
        runtime0_def writeAll_def del: processDicts.simps)
  have m2: "main runtime0 [(''FIX40.xml'', Inr [(dupOld, id)]), (''FIX41.xml'', Inr [(otherNew, rev)])] [] =
     Exit 0 [(''tag/tag_numbers.go'', tagTemplate [?g2]),
             (''field/fields.go'', fieldHead ''github.com/quickfixgo/quickfix'' @ fieldBlock ?g2 @ nl),
             (''enum/enums.go'', enumTemplate [?g2])]"
    by (simp add: main_def p2 s emit_eq genTags_def genFields_def genEnums_def ft
        runtime0_def writeAll_def del: processDicts.simps)
  have e1: "enumTemplate [?g1] =
     enumHead @ nl @ '' '' @ nl @ ''//Enum values for Side'' @ nl @ ''const('' @ nl @ nl @
     ''Side_A = '' @ dq @ ''1'' @ dq @ nl @ ''Side_B = '' @ dq @ ''3'' @ dq @ nl @ '')'' @ nl @
     enumTail"
    by (simp add: enumTemplate_def enumEntry_def enumLine_def rangeSorted_def len_def
        entries_def side_def entry_def)
  have e2: "enumTemplate [?g2] =
     enumHead @ nl @ '' '' @ nl @ ''//Enum values for Side'' @ nl @ ''const('' @ nl @ nl @
     ''Side_A = '' @ dq @ ''2'' @ dq @ nl @ ''Side_B = '' @ dq @ ''3'' @ dq @ nl @ '')'' @ nl @
     enumTail"
    by (simp add: enumTemplate_def enumEntry_def enumLine_def rangeSorted_def len_def
        entries_def side_def entry_def)
  have ne: "enumTemplate [?g1] \<noteq> enumTemplate [?g2]"
    unfolding e1 e2 by (simp add: dq_def nl_def)
  from same m1 m2 e1 e2 ne show ?thesis by blast
qed

text \<open>
  C4: whatever the dictionaries and the order of the arguments, the list the three
  templates range over is strictly ascending by field name and holds one field for every
  name of the dictionaries. The orders in which the runtime visits the maps do not show
  in the list, a sort that is not stable gives the same list, and arguments in another
  order give the same names in the same order. The fields appear in the three outputs
  in the order of that list. The text written to the file of the tags is, line by line,
  the heading, the line \<^verbatim>\<open><Name> quickfix.Tag =  <Tag>\<close> of each field in turn and the
  closing parenthesis; the text written to the file of the enums is the heading and, for
  each field in turn, an empty line and the block of its constants under the comment
  \<^verbatim>\<open>//Enum values for <Name>\<close>; the text written to the file of the fields is the
  heading and the block of each field in turn. Read as text, with names, descriptions
  and values that hold no line break, the lines of the first two outputs are exactly
  these, and the lines of the third that declare a type are the lines
  \<^verbatim>\<open>type <Name>Field struct { quickfix.<base type> }\<close> of the fields, in turn.
\<close>

theorem C4_sorted_emission:
  assumes parsed: "allParsed args" and orders: "allRearrange (visitsOf args)"
    and coll: "rearranges collect"
  shows "\<exists>m fieldTypes. processDicts [] args = Inr m \<and>
     fieldTypes = sortedFieldTypes collect m \<and>
     sorted_wrt (<) (map Name fieldTypes) \<and>
     set (map Name fieldTypes) = (\<lambda>fv. Name (fst fv)) ` set (visitsOf args) \<and>
     mset fieldTypes = mset (map snd m) \<and>
     (\<forall>ys. mset ys = mset (map snd (collect m)) \<and> sorted (map Name ys) \<longrightarrow> ys = fieldTypes) \<and>
     (\<forall>args' collect' m'. mset args' = mset args \<and> rearranges collect' \<and>
        processDicts [] args' = Inr m' \<longrightarrow>
        map Name (sortedFieldTypes collect' m') = map Name fieldTypes) \<and>
     (\<forall>rt w. args \<noteq> [] \<and> rangeFieldTypeMap rt = collect \<longrightarrow>
        main rt args w = emit rt fieldTypes w) \<and>
     (\<forall>rt w.
        genTags rt fieldTypes w =
          WriteFile rt ''tag/tag_numbers.go'' (unlines (tagFile fieldTypes) @ tab) w \<and>
        genEnums rt fieldTypes w =
          WriteFile rt ''enum/enums.go'' (unlines (enumFile fieldTypes) @ tab) w) \<and>
     (\<forall>rt w out. fieldTemplate (importRootPath rt) fieldTypes = Inr out \<longrightarrow>
        genFields rt fieldTypes w = WriteFile rt ''field/fields.go'' out w \<and>
        out = fieldHead (importRootPath rt) @ concat (map fieldBlock fieldTypes) @ nl) \<and>
     (list_all (\<lambda>fv. plain (fst fv)) (visitsOf args) \<longrightarrow>
        splitLines (tagTemplate fieldTypes) = tagFile fieldTypes @ [tab] \<and>
        splitLines (enumTemplate fieldTypes) = enumFile fieldTypes @ [tab] \<and>
        (\<forall>root out. oneLine root \<and> fieldTemplate root fieldTypes = Inr out \<longrightarrow>
           typeLines out = map typeLine fieldTypes))"
proof -
  obtain m where p: "processFields [] (visitsOf args) = Inr m"
    using processFields_total [OF orders] by blast
  then have run: "processDicts [] args = Inr m" by (simp add: processDicts_flat [OF parsed])
  note N = processDicts_names [OF parsed orders run]
  note S = sortedFieldTypes_names [OF N(2,3) coll]
  let ?fts = "sortedFieldTypes collect m"
  have names: "set (map Name ?fts) = (\<lambda>fv. Name (fst fv)) ` set (visitsOf args)"
    unfolding S(1) using N(1) by simp
  have uniq: "\<forall>ys. mset ys = mset (map snd (collect m)) \<and> sorted (map Name ys) \<longrightarrow> ys = ?fts"
    unfolding sortedFieldTypes_def using sorted_by_name_unique [OF S(4)] by blast
  have perm: "map Name (sortedFieldTypes collect' m') = map Name ?fts"
    if a: "mset args' = mset args" and c: "rearranges collect'"
      and r: "processDicts [] args' = Inr m'" for args' collect' m'
  proof -
    have sa: "set args' = set args" using a by (rule mset_eq_setD)
    have pa: "allParsed args'" using parsed sa by (simp add: allParsed_set)
    have sv: "set (visitsOf args') = set (visitsOf args)" using sa by (simp add: set_visitsOf)
    have oa: "allRearrange (visitsOf args')" using orders sv by (simp add: allRearrange_set)
    note N' = processDicts_names [OF pa oa r]
    note S' = sortedFieldTypes_names [OF N'(2,3) c]
    have "sort (map fst m') = sort (map fst m)"
    proof (rule sorted_distinct_set_unique)
      show "set (sort (map fst m')) = set (sort (map fst m))"
        using N'(1) N(1) sv by simp
    qed (simp_all add: N(2) N'(2))
    then show ?thesis unfolding S'(1) S(1) .
  qed
  have emits: "\<forall>rt w. args \<noteq> [] \<and> rangeFieldTypeMap rt = collect \<longrightarrow>
        main rt args w = emit rt ?fts w"
    using main_emits [OF _ run] by auto
  have gens: "\<forall>rt w.
        genTags rt ?fts w = WriteFile rt ''tag/tag_numbers.go'' (unlines (tagFile ?fts) @ tab) w \<and>
        genEnums rt ?fts w = WriteFile rt ''enum/enums.go'' (unlines (enumFile ?fts) @ tab) w"
    by (simp add: genTags_def genEnums_def tagTemplate_unlines enumTemplate_unlines)
  have fields: "\<forall>rt w out. fieldTemplate (importRootPath rt) ?fts = Inr out \<longrightarrow>
        genFields rt ?fts w = WriteFile rt ''field/fields.go'' out w \<and>
        out = fieldHead (importRootPath rt) @ concat (map fieldBlock ?fts) @ nl"
    using fieldTemplate_blocks [of _ ?fts] by (simp add: genFields_def)
  have lines: "list_all (\<lambda>fv. plain (fst fv)) (visitsOf args) \<longrightarrow>
        splitLines (tagTemplate ?fts) = tagFile ?fts @ [tab] \<and>
        splitLines (enumTemplate ?fts) = enumFile ?fts @ [tab] \<and>
        (\<forall>root out. oneLine root \<and> fieldTemplate root ?fts = Inr out \<longrightarrow>
           typeLines out = map typeLine ?fts)"
  proof
    assume "list_all (\<lambda>fv. plain (fst fv)) (visitsOf args)"
    from sortedFieldTypes_plain [OF parsed orders run this S(3)]
    have pl: "list_all plain ?fts" .
    note nm = plain_names [OF pl]
    have "\<forall>root out. oneLine root \<and> fieldTemplate root ?fts = Inr out \<longrightarrow>
           typeLines out = map typeLine ?fts"
      using fieldTemplate_typeLines(2) [OF _ _ nm] by blast
    with tagTemplate_lines [OF nm] enumTemplate_lines [OF pl]
    show "splitLines (tagTemplate ?fts) = tagFile ?fts @ [tab] \<and>
        splitLines (enumTemplate ?fts) = enumFile ?fts @ [tab] \<and>
        (\<forall>root out. oneLine root \<and> fieldTemplate root ?fts = Inr out \<longrightarrow>
           typeLines out = map typeLine ?fts)"
      by blast
  qed
  have perm': "\<forall>args' collect' m'. mset args' = mset args \<and> rearranges collect' \<and>
        processDicts [] args' = Inr m' \<longrightarrow>
        map Name (sortedFieldTypes collect' m') = map Name ?fts"
    using perm by blast
  show ?thesis
    apply (rule exI [of _ m], rule exI [of _ ?fts])
    apply (intro conjI)
              apply (rule run)
             apply (rule refl)
            apply (rule S(2))
           apply (rule names)
          apply (rule S(3))
         apply (rule uniq)
        apply (rule perm')
       apply (rule emits)
      apply (rule gens)
     apply (rule fields)
    apply (rule lines)
    done
qed

theorem C4_sorted_emission_witness:
  "processDicts [] [(''FIX40.xml'', Inr [(sellOld, id), (fString, id)]),
                    (''FIX41.xml'', Inr [(fInt, id)])] =
     Inr [(''Side'', sellOld), (''Account'', fString), (''MsgSeqNum'', fInt)] \<and>
   sortedFieldTypes rev [(''Side'', sellOld), (''Account'', fString), (''MsgSeqNum'', fInt)] =
     [fString, fInt, sellOld] \<and>
   map Name [fString, fInt, sellOld] = [''Account'', ''MsgSeqNum'', ''Side''] \<and>
   processDicts [] [(''FIX41.xml'', Inr [(fInt, id)]),
                    (''FIX40.xml'', Inr [(sellOld, id), (fString, id)])] =
     Inr [(''MsgSeqNum'', fInt), (''Side'', sellOld), (''Account'', fString)] \<and>
   sortedFieldTypes id [(''MsgSeqNum'', fInt), (''Side'', sellOld), (''Account'', fString)] =
     [fString, fInt, sellOld] \<and>
   list_all (\<lambda>fv. plain (fst fv))
     (visitsOf [(''FIX40.xml'', Inr [(sellOld, id), (fString, id)]),
                (''FIX41.xml'', Inr [(fInt, id)])]) \<and>
   splitLines (tagTemplate [fString, fInt, sellOld]) =
     [[], ''package tag'', ''import('' @ dq @ ''github.com/quickfixgo/quickfix'' @ dq @ '')'',
      [], ''const ('',
      ''Account quickfix.Tag =  1'', ''MsgSeqNum quickfix.Tag =  34'', ''Side quickfix.Tag =  54'',
      '')'', tab] \<and>
   splitLines (enumTemplate [fString, fInt, sellOld]) =
     [[], ''package enum'', [], [], [],
      '' '', ''//Enum values for Side'', ''const('', [],
      ''Side_Buy = '' @ dq @ ''1'' @ dq, ''Side_Sell = '' @ dq @ ''2'' @ dq, '')'', [], tab] \<and>
   oneLine ''github.com/quickfixgo/quickfix'' \<and>
   fieldTemplate ''github.com/quickfixgo/quickfix'' [fString, fInt, sellOld] =
     Inr (fieldHead ''github.com/quickfixgo/quickfix'' @
          concat (map fieldBlock [fString, fInt, sellOld]) @ nl) \<and>
   typeLines (fieldHead ''github.com/quickfixgo/quickfix'' @
          concat (map fieldBlock [fString, fInt, sellOld]) @ nl) =
     [''type AccountField struct { quickfix.FIXString }'',
      ''type MsgSeqNumField struct { quickfix.FIXInt }'',
      ''type SideField struct { quickfix.FIXString }'']"
proof -
  let ?args = "[(''FIX40.xml'', Inr [(sellOld, id), (fString, id)]),
                (''FIX41.xml'', Inr [(fInt, id)])]"
  let ?root = "''github.com/quickfixgo/quickfix''"
  let ?fts = "[fString, fInt, sellOld]"
  have h1: "allParsed ?args" by (simp add: allParsed_def)
  have h2: "allRearrange (visitsOf ?args)"
    by (simp add: visitsOf_def rearranges_id)
  have h3: "rearranges (rev :: FieldType order)" by (rule rearranges_rev)
  have pl: "list_all (\<lambda>fv. plain (fst fv)) (visitsOf ?args)"
    by (simp add: visitsOf_def plain_def run_simps fInt_def)
  obtain m fts where r: "processDicts [] ?args = Inr m" "fts = sortedFieldTypes rev m"
    and L: "list_all (\<lambda>fv. plain (fst fv)) (visitsOf ?args) \<longrightarrow>
        splitLines (tagTemplate fts) = tagFile fts @ [tab] \<and>
        splitLines (enumTemplate fts) = enumFile fts @ [tab] \<and>
        (\<forall>root out. oneLine root \<and> fieldTemplate root fts = Inr out \<longrightarrow>
           typeLines out = map typeLine fts)"
    by (insert C4_sorted_emission [OF h1 h2 h3], elim exE conjE) (rule that)
  have run: "processDicts [] ?args =
     Inr [(''Side'', sellOld), (''Account'', fString), (''MsgSeqNum'', fInt)]"
    by (simp add: run_simps fInt_def)
  have srt: "sortedFieldTypes rev [(''Side'', sellOld), (''Account'', fString), (''MsgSeqNum'', fInt)] =
     ?fts"
    by (simp add: sortedFieldTypes_def run_simps fInt_def)
  from r run srt have fts: "fts = ?fts" by simp
  have rest: "map Name ?fts = [''Account'', ''MsgSeqNum'', ''Side''] \<and>
   processDicts [] [(''FIX41.xml'', Inr [(fInt, id)]),
                    (''FIX40.xml'', Inr [(sellOld, id), (fString, id)])] =
     Inr [(''MsgSeqNum'', fInt), (''Side'', sellOld), (''Account'', fString)] \<and>
   sortedFieldTypes id [(''MsgSeqNum'', fInt), (''Side'', sellOld), (''Account'', fString)] =
     ?fts"
    by (simp add: sortedFieldTypes_def run_simps fInt_def)
  have q: "quickfixType fString = (''FIXString'', None)" "quickfixType fInt = (''FIXInt'', None)"
    "quickfixType sellOld = (''FIXString'', None)"
    by (simp_all add: quickfixType_def fString_def fInt_def sellOld_def side_def)
  have ft: "fieldTemplate ?root ?fts = Inr (fieldHead ?root @ concat (map fieldBlock ?fts) @ nl)"
    by (simp add: fieldTemplate_def fieldEntry_def fieldBlock_def q)
       (simp add: fString_def fInt_def sellOld_def side_def)
  have ol: "oneLine ?root" by simp
  from L pl have L': "splitLines (tagTemplate ?fts) = tagFile ?fts @ [tab]"
      "splitLines (enumTemplate ?fts) = enumFile ?fts @ [tab]"
      "\<forall>root out. oneLine root \<and> fieldTemplate root ?fts = Inr out \<longrightarrow>
           typeLines out = map typeLine ?fts"
    unfolding fts by blast+
  have tf: "tagFile ?fts =
     [[], ''package tag'', ''import('' @ dq @ ''github.com/quickfixgo/quickfix'' @ dq @ '')'',
      [], ''const ('',
      ''Account quickfix.Tag =  1'', ''MsgSeqNum quickfix.Tag =  34'', ''Side quickfix.Tag =  54'',
      '')'']"
    by (simp add: tagFile_def tagLine_def fmtInt_def digits.simps fString_def fInt_def
        sellOld_def side_def)
  have ef: "enumFile ?fts =
     [[], ''package enum'', [], [], [],
      '' '', ''//Enum values for Side'', ''const('', [],
      ''Side_Buy = '' @ dq @ ''1'' @ dq, ''Side_Sell = '' @ dq @ ''2'' @ dq, '')'', []]"
    by (simp add: enumFile_def enumBlock_def enumConst_def entries_def fString_def fInt_def
        sellOld_def side_def entry_def)
  have tl: "map typeLine ?fts =
     [''type AccountField struct { quickfix.FIXString }'',
      ''type MsgSeqNumField struct { quickfix.FIXInt }'',
      ''type SideField struct { quickfix.FIXString }'']"
    by (simp add: typeLine_def q) (simp add: fString_def fInt_def sellOld_def side_def)
  from L'(3) ol ft
  have ty: "typeLines (fieldHead ?root @ concat (map fieldBlock ?fts) @ nl) = map typeLine ?fts"
    by blast
  from run srt rest pl L'(1) L'(2) ol ft ty show ?thesis
    unfolding tf ef tl by simp
qed



text \<open>
  C6: as the claim states it, the exit code is 0 exactly when all three emission steps
  succeed, an emitter that fails does not keep the remaining ones from being attempted,
  and with no argument the process exits with a usage-error code of its own. The handler
  the spec describes accumulates the failures to write an artifact only: when the field
  emitter fails on an unknown type the run is aborted at once and the enum emitter is
  not attempted, and a run that is aborted ends with the status 2 of a panic, which is
  the code of \<^verbatim>\<open>usage\<close> (the example after the witness). What holds: with no argument
  the process exits with the code 2 of \<^verbatim>\<open>usage\<close>, which is not the code of success.
  Otherwise, once the dictionaries are merged, the status is 0 exactly when all three
  emitters returned no error. While the emitters return nothing but failures to write,
  all three run one after the other, the world the process leaves is the world after
  all three, and the exit code is the code the handler sets, which is not 0, when one
  of them failed. The first emitter to return another error ends the run by a panic
  with that error, in the world it left; so does the field emitter when the type of a
  field is unknown, after the tags are written and before the enums are.
\<close>

theorem C6_exit_codes:
  assumes nz: "failureCode rt \<noteq> 0"
  shows "main rt [] w = Exit 2 w \<and> exitStatus (main rt [] w) \<noteq> 0 \<and>
     (\<forall>args m. args \<noteq> [] \<and> processDicts [] args = Inr m \<longrightarrow>
        main rt args w = emit rt (sortedFieldTypes (rangeFieldTypeMap rt) m) w) \<and>
     (\<forall>fts.
        (exitStatus (emit rt fts w) = 0 \<longleftrightarrow>
           fst (genTags rt fts w) = None \<and>
           fst (genFields rt fts (snd (genTags rt fts w))) = None \<and>
           fst (genEnums rt fts (snd (genFields rt fts (snd (genTags rt fts w))))) = None)) \<and>
     (\<forall>fts.
        \<not> aborts (fst (genTags rt fts w)) \<and>
        \<not> aborts (fst (genFields rt fts (snd (genTags rt fts w)))) \<and>
        \<not> aborts (fst (genEnums rt fts (snd (genFields rt fts (snd (genTags rt fts w)))))) \<longrightarrow>
        (\<exists>code.
           emit rt fts w =
             Exit code (snd (genEnums rt fts (snd (genFields rt fts (snd (genTags rt fts w)))))) \<and>
           (code = 0 \<longleftrightarrow>
              fst (genTags rt fts w) = None \<and>
              fst (genFields rt fts (snd (genTags rt fts w))) = None \<and>
              fst (genEnums rt fts (snd (genFields rt fts (snd (genTags rt fts w))))) = None) \<and>
           (code \<noteq> 0 \<longrightarrow> code = failureCode rt))) \<and>
     (\<forall>fts e.
        (fst (genTags rt fts w) = Some e \<and> \<not> emissionError e \<longrightarrow>
           emit rt fts w = Panic e (snd (genTags rt fts w))) \<and>
        (\<not> aborts (fst (genTags rt fts w)) \<and>
         fst (genFields rt fts (snd (genTags rt fts w))) = Some e \<and> \<not> emissionError e \<longrightarrow>
           emit rt fts w = Panic e (snd (genFields rt fts (snd (genTags rt fts w))))) \<and>
        (\<not> aborts (fst (genTags rt fts w)) \<and>
         \<not> aborts (fst (genFields rt fts (snd (genTags rt fts w)))) \<and>
         fst (genEnums rt fts (snd (genFields rt fts (snd (genTags rt fts w))))) = Some e \<and>
         \<not> emissionError e \<longrightarrow>
           emit rt fts w =
             Panic e (snd (genEnums rt fts (snd (genFields rt fts (snd (genTags rt fts w)))))))) \<and>
     (\<forall>fts e.
        fieldTemplate (importRootPath rt) fts = Inl e \<and> \<not> aborts (fst (genTags rt fts w)) \<longrightarrow>
          \<not> emissionError e \<and>
          emit rt fts w = Panic e (snd (genTags rt fts w)) \<and>
          exitStatus (emit rt fts w) = 2)"
proof (intro conjI allI impI)
  show "main rt [] w = Exit 2 w" by (simp add: main_def usage_def)
  show "exitStatus (main rt [] w) \<noteq> 0" by (simp add: main_def usage_def)
next
  fix args m
  assume "args \<noteq> [] \<and> processDicts [] args = Inr m"
  then show "main rt args w = emit rt (sortedFieldTypes (rangeFieldTypeMap rt) m) w"
    by (simp add: main_def)
next
  fix fts
  show "exitStatus (emit rt fts w) = 0 \<longleftrightarrow>
           fst (genTags rt fts w) = None \<and>
           fst (genFields rt fts (snd (genTags rt fts w))) = None \<and>
           fst (genEnums rt fts (snd (genFields rt fts (snd (genTags rt fts w))))) = None"
    using nz by (auto simp: emit_eq)
next
  fix fts
  let ?ok = "fst (genTags rt fts w) = None \<and>
           fst (genFields rt fts (snd (genTags rt fts w))) = None \<and>
           fst (genEnums rt fts (snd (genFields rt fts (snd (genTags rt fts w))))) = None"
  let ?code = "if ?ok then 0 else failureCode rt"
  assume "\<not> aborts (fst (genTags rt fts w)) \<and>
        \<not> aborts (fst (genFields rt fts (snd (genTags rt fts w)))) \<and>
        \<not> aborts (fst (genEnums rt fts (snd (genFields rt fts (snd (genTags rt fts w))))))"
  then have "emit rt fts w =
          Exit ?code (snd (genEnums rt fts (snd (genFields rt fts (snd (genTags rt fts w))))))"
    by (simp add: emit_eq)
  moreover have "?code = 0 \<longleftrightarrow> ?ok" using nz by simp
  moreover have "?code \<noteq> 0 \<longrightarrow> ?code = failureCode rt" by simp
  ultimately show "\<exists>code.
        emit rt fts w =
          Exit code (snd (genEnums rt fts (snd (genFields rt fts (snd (genTags rt fts w)))))) \<and>
        (code = 0 \<longleftrightarrow> ?ok) \<and> (code \<noteq> 0 \<longrightarrow> code = failureCode rt)"
    by (intro exI [of _ ?code] conjI)
next
  fix fts e
  assume "fst (genTags rt fts w) = Some e \<and> \<not> emissionError e"
  then show "emit rt fts w = Panic e (snd (genTags rt fts w))"
    by (simp add: emit_eq)
next
  fix fts e
  assume "\<not> aborts (fst (genTags rt fts w)) \<and>
         fst (genFields rt fts (snd (genTags rt fts w))) = Some e \<and> \<not> emissionError e"
  then show "emit rt fts w = Panic e (snd (genFields rt fts (snd (genTags rt fts w))))"
    by (simp add: emit_eq)
next
  fix fts e
  assume "\<not> aborts (fst (genTags rt fts w)) \<and>
         \<not> aborts (fst (genFields rt fts (snd (genTags rt fts w)))) \<and>
         fst (genEnums rt fts (snd (genFields rt fts (snd (genTags rt fts w))))) = Some e \<and>
         \<not> emissionError e"
  then show "emit rt fts w =
             Panic e (snd (genEnums rt fts (snd (genFields rt fts (snd (genTags rt fts w))))))"
    by (simp add: emit_eq)
next
  fix fts e
  assume a: "fieldTemplate (importRootPath rt) fts = Inl e \<and> \<not> aborts (fst (genTags rt fts w))"
  note g = genFields_Inl [OF a [THEN conjunct1]]
  from g(2) show "\<not> emissionError e" by simp
  from a g show "emit rt fts w = Panic e (snd (genTags rt fts w))"
    by (simp add: emit_eq)
  then show "exitStatus (emit rt fts w) = 2" by simp
qed

theorem C6_exit_codes_witness:
  "failureCode (runtime0\<lparr>WriteFile := writeButFields\<rparr>) \<noteq> 0 \<and>
   main (runtime0\<lparr>WriteFile := writeButFields\<rparr>) [] [] = Exit 2 [] \<and>
   \<not> aborts (fst (genTags (runtime0\<lparr>WriteFile := writeButFields\<rparr>) [fString] [])) \<and>
   genFields (runtime0\<lparr>WriteFile := writeButFields\<rparr>) [fString]
       [(''tag/tag_numbers.go'', tagTemplate [fString])] =
     (Some (WriteFailure ''field/fields.go''), [(''tag/tag_numbers.go'', tagTemplate [fString])]) \<and>
   main (runtime0\<lparr>WriteFile := writeButFields\<rparr>) [(''FIX40.xml'', Inr [(fString, id)])] [] =
     Exit 1 [(''tag/tag_numbers.go'', tagTemplate [fString]),
             (''enum/enums.go'', enumTemplate [fString])] \<and>
   main runtime0 [(''FIX40.xml'', Inr [(fString, id)])] [] =
     Exit 0 [(''tag/tag_numbers.go'', tagTemplate [fString]),
             (''field/fields.go'',
              fieldHead ''github.com/quickfixgo/quickfix'' @ fieldBlock fString @ nl),
             (''enum/enums.go'', enumTemplate [fString])] \<and>
   fieldTemplate (importRootPath (runtime0\<lparr>WriteFile := writeButFields\<rparr>)) [fBogus] =
     Inl (ExecError (Errorf (unknownTypeText ''BOGUSTYPE'' 9999))) \<and>
   emit (runtime0\<lparr>WriteFile := writeButFields\<rparr>) [fBogus] [] =
     Panic (ExecError (Errorf (unknownTypeText ''BOGUSTYPE'' 9999)))
       [(''tag/tag_numbers.go'', tagTemplate [fBogus])]"
proof -
  let ?rt = "runtime0\<lparr>WriteFile := writeButFields\<rparr>"
  let ?tags = "[(''tag/tag_numbers.go'', tagTemplate [fString])]"
  have nz: "failureCode ?rt \<noteq> 0" by (simp add: runtime0_def)
  note T = C6_exit_codes [OF nz, of "[]"]
  have q: "quickfixType fString = (''FIXString'', None)"
    by (simp add: quickfixType_def fString_def)
  have ft: "fieldTemplate ''github.com/quickfixgo/quickfix'' [fString] =
     Inr (fieldHead ''github.com/quickfixgo/quickfix'' @ fieldBlock fString @ nl)"
    by (simp add: fieldTemplate_def fieldEntry_def fieldBlock_def q)
       (simp add: fString_def)
  have p: "processDicts [] [(''FIX40.xml'', Inr [(fString, id)])] = Inr [(''Account'', fString)]"
    by (simp add: processField_def fString_def)
  have s: "sortedFieldTypes (rangeFieldTypeMap ?rt) [(''Account'', fString)] = [fString]"
    "sortedFieldTypes id [(''Account'', fString)] = [fString]"
    by (simp_all add: sortedFieldTypes_def runtime0_def)
  have g1: "genTags ?rt [fString] [] = (None, ?tags)"
    by (simp add: genTags_def runtime0_def writeButFields_def)
  have g2: "genFields ?rt [fString] ?tags = (Some (WriteFailure ''field/fields.go''), ?tags)"
    by (simp add: genFields_def runtime0_def writeButFields_def ft)
  have g3: "genEnums ?rt [fString] ?tags =
      (None, [(''tag/tag_numbers.go'', tagTemplate [fString]),
              (''enum/enums.go'', enumTemplate [fString])])"
    by (simp add: genEnums_def runtime0_def writeButFields_def)
  have u: "main ?rt [] [] = Exit 2 []"
    using T by (rule conjunct1)
  have m: "main ?rt [(''FIX40.xml'', Inr [(fString, id)])] [] = emit ?rt [fString] []"
    using T [THEN conjunct2, THEN conjunct2, THEN conjunct1, THEN spec, THEN spec,
        of "[(''FIX40.xml'', Inr [(fString, id)])]" "[(''Account'', fString)]"] p s(1)
    by simp
  have na: "\<not> aborts (fst (genTags ?rt [fString] [])) \<and>
        \<not> aborts (fst (genFields ?rt [fString] (snd (genTags ?rt [fString] [])))) \<and>
        \<not> aborts (fst (genEnums ?rt [fString]
           (snd (genFields ?rt [fString] (snd (genTags ?rt [fString] []))))))"
    by (simp add: g1 g2 g3)
  from T [THEN conjunct2, THEN conjunct2, THEN conjunct2, THEN conjunct2, THEN conjunct1,
      THEN spec, THEN mp, OF na]
  obtain code where c: "emit ?rt [fString] [] =
        Exit code (snd (genEnums ?rt [fString]
           (snd (genFields ?rt [fString] (snd (genTags ?rt [fString] []))))))"
      "code \<noteq> 0 \<longrightarrow> code = failureCode ?rt"
      "code = 0 \<longleftrightarrow>
         fst (genTags ?rt [fString] []) = None \<and>
         fst (genFields ?rt [fString] (snd (genTags ?rt [fString] []))) = None \<and>
         fst (genEnums ?rt [fString]
           (snd (genFields ?rt [fString] (snd (genTags ?rt [fString] []))))) = None"
    by blast
  have fc: "failureCode runtime0 = 1" by (simp add: runtime0_def)
  from c(2,3) have "code = 1" by (simp add: g1 g2 fc)
  with c(1) m have a: "main ?rt [(''FIX40.xml'', Inr [(fString, id)])] [] =
     Exit 1 [(''tag/tag_numbers.go'', tagTemplate [fString]),
             (''enum/enums.go'', enumTemplate [fString])]"
    by (simp add: g1 g2 g3)
  have b: "main runtime0 [(''FIX40.xml'', Inr [(fString, id)])] [] =
     Exit 0 [(''tag/tag_numbers.go'', tagTemplate [fString]),
             (''field/fields.go'',
              fieldHead ''github.com/quickfixgo/quickfix'' @ fieldBlock fString @ nl),
             (''enum/enums.go'', enumTemplate [fString])]"
    by (simp add: main_def p s emit_eq genTags_def genFields_def genEnums_def ft
        runtime0_def writeAll_def del: processDicts.simps)
  have fb: "fieldTemplate (importRootPath ?rt) [fBogus] =
     Inl (ExecError (Errorf (unknownTypeText ''BOGUSTYPE'' 9999)))"
    by (simp add: fieldTemplate_def fieldEntry_def quickfixType_def fBogus_def)
  have gb: "genTags ?rt [fBogus] [] = (None, [(''tag/tag_numbers.go'', tagTemplate [fBogus])])"
    by (simp add: genTags_def runtime0_def writeButFields_def)
  have nb: "\<not> aborts (fst (genTags ?rt [fBogus] []))" by (simp add: gb)
  from T [THEN conjunct2, THEN conjunct2, THEN conjunct2, THEN conjunct2, THEN conjunct2,
      THEN conjunct2, THEN spec, THEN spec, THEN mp, OF conjI [OF fb nb]]
  have e: "emit ?rt [fBogus] [] =
     Panic (ExecError (Errorf (unknownTypeText ''BOGUSTYPE'' 9999)))
       [(''tag/tag_numbers.go'', tagTemplate [fBogus])]"
    by (simp add: gb)
  have n1: "\<not> aborts (fst (genTags ?rt [fString] []))" by (simp add: g1)
  from nz u n1 g2 a b fb e show ?thesis by blast
qed

theorem C6_unknown_type_aborts:
  "fst (genFields runtime0 [fBogus] [(''tag/tag_numbers.go'', tagTemplate [fBogus])]) =
     Some (ExecError (Errorf (unknownTypeText ''BOGUSTYPE'' 9999))) \<and>
   genEnums runtime0 [fBogus] [(''tag/tag_numbers.go'', tagTemplate [fBogus])] =
     (None, [(''tag/tag_numbers.go'', tagTemplate [fBogus]),
             (''enum/enums.go'', enumTemplate [fBogus])]) \<and>
   main runtime0 [(''FIX40.xml'', Inr [(fBogus, id)])] [] =
     Panic (ExecError (Errorf (unknownTypeText ''BOGUSTYPE'' 9999)))
       [(''tag/tag_numbers.go'', tagTemplate [fBogus])] \<and>
   exitStatus (main runtime0 [(''FIX40.xml'', Inr [(fBogus, id)])] []) =
     exitStatus (main runtime0 [] []) \<and>
   exitStatus (main runtime0 [(''FIX40.xml'', Inl (ParseFailure ''FIX40.xml''))] []) =
     exitStatus (main runtime0 [] [])"
proof -
  let ?tags = "[(''tag/tag_numbers.go'', tagTemplate [fBogus])]"
  have fb: "fieldTemplate ''github.com/quickfixgo/quickfix'' [fBogus] =
     Inl (ExecError (Errorf (unknownTypeText ''BOGUSTYPE'' 9999)))"
    by (simp add: fieldTemplate_def fieldEntry_def quickfixType_def fBogus_def)
  have p: "processDicts [] [(''FIX40.xml'', Inr [(fBogus, id)])] = Inr [(''Bogus'', fBogus)]"
    by (simp add: processField_def fBogus_def)
  have s: "sortedFieldTypes (rangeFieldTypeMap runtime0) [(''Bogus'', fBogus)] = [fBogus]"
    by (simp add: sortedFieldTypes_def runtime0_def)
  have g1: "genTags runtime0 [fBogus] [] = (None, ?tags)"
    by (simp add: genTags_def runtime0_def writeAll_def)
  have g2: "genFields runtime0 [fBogus] ?tags =
      (Some (ExecError (Errorf (unknownTypeText ''BOGUSTYPE'' 9999))), ?tags)"
    by (simp add: genFields_def runtime0_def fb)
  have g3: "genEnums runtime0 [fBogus] ?tags =
     (None, [(''tag/tag_numbers.go'', tagTemplate [fBogus]),
             (''enum/enums.go'', enumTemplate [fBogus])])"
    by (simp add: genEnums_def runtime0_def writeAll_def)
  have m: "main runtime0 [(''FIX40.xml'', Inr [(fBogus, id)])] [] =
     Panic (ExecError (Errorf (unknownTypeText ''BOGUSTYPE'' 9999))) ?tags"
    by (simp add: main_def p s emit_eq g1 g2 del: processDicts.simps)
  have u: "exitStatus (main runtime0 [] []) = 2" by (simp add: main_def usage_def)
  have pf: "exitStatus (main runtime0 [(''FIX40.xml'', Inl (ParseFailure ''FIX40.xml''))] []) = 2"
    by (simp add: main_def)
  from g2 g3 m u pf show ?thesis by simp
qed

text \<open>
  C7: after the dictionaries are processed in the order of the arguments, the map holds
  for every field name the name, tag and declared type of the last definition of that
  name; its enums are the enums of that definition and, beyond them, only enums of
  earlier definitions of the name. When the last definition has no map of enums and the
  stored one has enums, line 251 first makes an empty map on the last definition: the
  loop then runs on it, and would panic on the nil map without it.
\<close>

theorem C7_last_definition_wins:
  assumes parsed: "allParsed args" and orders: "allRearrange (visitsOf args)"
    and last: "visitsOf args = pre @ (f, v) # post"
    and no_later: "\<forall>fv \<in> set post. Name (fst fv) \<noteq> Name f"
  shows "\<exists>m m0 g. processDicts [] args = Inr m \<and> processFields [] pre = Inr m0 \<and>
           map_of m (Name f) = Some g \<and>
           Name g = Name f \<and> Tag g = Tag f \<and> Type g = Type f \<and>
           set (entries (Enums f)) \<subseteq> set (entries (Enums g)) \<and>
           (\<forall>kv \<in> set (entries (Enums g)). kv \<in> set (entries (Enums f)) \<or>
              (\<exists>fv \<in> set pre. Name (fst fv) = Name f \<and> kv \<in> set (entries (Enums (fst fv))))) \<and>
           (map_of m0 (Name f) = None \<longrightarrow> g = f) \<and>
           (\<forall>old. map_of m0 (Name f) = Some old \<longrightarrow>
              mergeField v old f = Inr g \<and>
              (Enums f = None \<and> len (Enums old) > 0 \<longrightarrow>
                 Enums g \<noteq> None \<and>
                 mergeEnums (f\<lparr>Enums := Some []\<rparr>) (v (entries (Enums old))) = Inr g \<and>
                 mergeEnums f (v (entries (Enums old))) = Inl NilMapAssign))"
proof -
  from orders last have r: "allRearrange (pre @ (f, v) # post)" by simp
  then have rpre: "allRearrange pre" and rv: "rearranges v" by simp_all
  obtain m0 g m where 1: "processFields [] pre = Inr m0"
      "processFields [] (pre @ (f, v) # post) = Inr m" "map_of m (Name f) = Some g"
      "Name g = Name f" "Tag g = Tag f" "Type g = Type f"
      "map_of m0 (Name f) = None \<longrightarrow> g = f"
      "\<forall>old. map_of m0 (Name f) = Some old \<longrightarrow> mergeField v old f = Inr g"
    using processFields_last [OF r no_later, of "[]"] by auto
  have run: "processDicts [] args = Inr m"
    using 1(2) last by (simp add: processDicts_flat [OF parsed])
  have keep: "set (entries (Enums f)) \<subseteq> set (entries (Enums g))"
  proof (cases "map_of m0 (Name f)")
    case None
    then show ?thesis using 1(7) by simp
  next
    case (Some old)
    then show ?thesis using 1(8) mergeField_keeps [OF rv] by simp
  qed
  have "from": "\<forall>kv \<in> set (entries (Enums g)). kv \<in> set (entries (Enums f)) \<or>
      (\<exists>fv \<in> set pre. Name (fst fv) = Name f \<and> kv \<in> set (entries (Enums (fst fv))))"
  proof
    fix kv
    assume kv: "kv \<in> set (entries (Enums g))"
    show "kv \<in> set (entries (Enums f)) \<or>
      (\<exists>fv \<in> set pre. Name (fst fv) = Name f \<and> kv \<in> set (entries (Enums (fst fv))))"
    proof (cases "kv \<in> set (entries (Enums f))")
      case True
      then show ?thesis by simp
    next
      case False
      then have "map_of m0 (Name f) \<noteq> None" using 1(7) kv by auto
      then obtain old where old: "map_of m0 (Name f) = Some old" by auto
      then have "mergeField v old f = Inr g" using 1(8) by simp
      from mergeField_from [OF rv this kv False]
      have "kv \<in> set (entries (Enums old))" by simp
      from processFields_provenance [OF rpre 1(1) old this]
      obtain p' f' v' q' where "pre = p' @ (f', v') # q'" "Name f' = Name f"
        "kv \<in> set (entries (Enums f'))" by blast
      then have "(f', v') \<in> set pre \<and> Name (fst (f', v')) = Name f \<and>
          kv \<in> set (entries (Enums (fst (f', v'))))" by simp
      then show ?thesis by blast
    qed
  qed
  have init: "\<forall>old. map_of m0 (Name f) = Some old \<longrightarrow>
              mergeField v old f = Inr g \<and>
              (Enums f = None \<and> len (Enums old) > 0 \<longrightarrow>
                 Enums g \<noteq> None \<and>
                 mergeEnums (f\<lparr>Enums := Some []\<rparr>) (v (entries (Enums old))) = Inr g \<and>
                 mergeEnums f (v (entries (Enums old))) = Inl NilMapAssign)"
    using 1(8) mergeField_creates_map [OF rv] by blast
  from run 1(1,3-7) keep "from" init show ?thesis
    by - (rule exI [of _ m], rule exI [of _ m0], rule exI [of _ g], simp)
qed

theorem C7_last_definition_witness:
  "processDicts [] [(''FIX40.xml'', Inr [(sellOld, id)]),
                    (''FIX41.xml'', Inr [(sideNil, rev), (fString, id)])] =
     Inr [(''Side'', side (Some [entry ''2'' ''Sell'', entry ''1'' ''Buy''])),
          (''Account'', fString)] \<and>
   processFields [] [(sellOld, id)] = Inr [(''Side'', sellOld)] \<and>
   Enums sideNil = None \<and> len (Enums sellOld) = 2 \<and>
   mergeField rev sellOld sideNil =
     Inr (side (Some [entry ''2'' ''Sell'', entry ''1'' ''Buy''])) \<and>
   mergeEnums sideNil (rev (entries (Enums sellOld))) = Inl NilMapAssign"
proof -
  let ?args = "[(''FIX40.xml'', Inr [(sellOld, id)]),
                (''FIX41.xml'', Inr [(sideNil, rev), (fString, id)])]"
  have h1: "allParsed ?args" by (simp add: allParsed_def)
  have h3: "visitsOf ?args = [(sellOld, id)] @ (sideNil, rev) # [(fString, id)]"
    by (simp add: visitsOf_def)
  have h2: "allRearrange (visitsOf ?args)"
    unfolding h3 by (simp add: rearranges_id rearranges_rev)
  have h4: "\<forall>fv \<in> set [(fString, id :: Enum order)]. Name (fst fv) \<noteq> Name sideNil"
    by (simp add: run_simps)
  have total: "\<exists>m. processDicts [] ?args = Inr m"
    by (insert C7_last_definition_wins [OF h1 h2 h3 h4], elim exE conjE, rule exI)
  have run: "processDicts [] ?args =
     Inr [(''Side'', side (Some [entry ''2'' ''Sell'', entry ''1'' ''Buy''])),
          (''Account'', fString)]"
    by (simp add: run_simps)
  have rest: "processFields [] [(sellOld, id)] = Inr [(''Side'', sellOld)] \<and>
   Enums sideNil = None \<and> len (Enums sellOld) = 2 \<and>
   mergeField rev sellOld sideNil =
     Inr (side (Some [entry ''2'' ''Sell'', entry ''1'' ''Buy''])) \<and>
   mergeEnums sideNil (rev (entries (Enums sellOld))) = Inl NilMapAssign"
    by (simp add: run_simps)
  from total run rest show ?thesis by (intro conjI) (erule conjunct1 | simp)+
qed

text \<open>
  C8: when no field of any dictionary has two enums with the same description, no field
  of the merged map has; and an entry of the merged field whose description occurs in
  several definitions of the name is the entry of the newest of them. The entries of
  the last definition of a name are all kept.
\<close>

theorem C8_no_shared_description:
  assumes parsed: "allParsed args" and orders: "allRearrange (visitsOf args)"
    and inputs: "\<forall>fv \<in> set (visitsOf args).
                   isMap (Enums (fst fv)) \<and> noSharedDescription (Enums (fst fv))"
  shows "\<exists>m. processDicts [] args = Inr m \<and>
           (\<forall>n g. map_of m n = Some g \<longrightarrow> isMap (Enums g) \<and> noSharedDescription (Enums g)) \<and>
           (\<forall>n g pre f v post kv kv'.
              map_of m n = Some g \<and> visitsOf args = pre @ (f, v) # post \<and> Name f = n \<and>
              kv \<in> set (entries (Enums f)) \<and>
              (\<forall>fv \<in> set post. Name (fst fv) = n \<longrightarrow>
                 Description (snd kv) \<notin> descriptions (Enums (fst fv))) \<and>
              kv' \<in> set (entries (Enums g)) \<and> Description (snd kv') = Description (snd kv)
              \<longrightarrow> kv' = kv) \<and>
           (\<forall>g pre f v post.
              map_of m (Name f) = Some g \<and> visitsOf args = pre @ (f, v) # post \<and>
              (\<forall>fv \<in> set post. Name (fst fv) \<noteq> Name f)
              \<longrightarrow> set (entries (Enums f)) \<subseteq> set (entries (Enums g)))"
proof -
  obtain m where m: "processFields [] (visitsOf args) = Inr m"
    using processFields_total [OF orders] by blast
  then have run: "processDicts [] args = Inr m" by (simp add: processDicts_flat [OF parsed])
  have inv: "\<forall>n g. map_of m n = Some g \<longrightarrow> isMap (Enums g) \<and> noSharedDescription (Enums g)"
    using processFields_invariants [OF orders m inputs] by simp
  have newest: "kv' = kv"
    if g: "map_of m n = Some g" and d: "visitsOf args = pre @ (f, v) # post" "Name f = n"
      and kv: "kv \<in> set (entries (Enums f))"
      and later: "\<forall>fv \<in> set post. Name (fst fv) = n \<longrightarrow>
                 Description (snd kv) \<notin> descriptions (Enums (fst fv))"
      and kv': "kv' \<in> set (entries (Enums g))" "Description (snd kv') = Description (snd kv)"
    for n g pre f v post kv kv'
  proof -
    from processFields_provenance [OF orders m g kv'(1)]
    obtain p1 f1 v1 q1 where b: "visitsOf args = p1 @ (f1, v1) # q1" "Name f1 = n"
        "kv' \<in> set (entries (Enums f1))"
        "\<forall>fv \<in> set q1. Name (fst fv) = n \<longrightarrow>
           Description (snd kv') \<notin> descriptions (Enums (fst fv))"
      by blast
    have df: "Description (snd kv) \<in> descriptions (Enums f)"
      using kv by (auto simp: descriptions_def)
    have "Description (snd kv') \<in> descriptions (Enums f1)"
      using b(3) by (auto simp: descriptions_def)
    then have df1: "Description (snd kv) \<in> descriptions (Enums f1)"
      using kv'(2) by simp
    from d(1) b(1) have "pre @ (f, v) # post = p1 @ (f1, v1) # q1" by simp
    from same_position [OF this]
    have "(f, v) = (f1, v1)"
    proof (elim disjE)
      assume "(f1, v1) \<in> set post"
      then show ?thesis using later b(2) df1 by auto
    next
      assume "(f, v) \<in> set q1"
      then show ?thesis using b(4) d(2) df kv'(2) by auto
    qed
    then have both: "kv \<in> set (entries (Enums f))" "kv' \<in> set (entries (Enums f))"
      using kv b(3) by simp_all
    have "(f, v) \<in> set (visitsOf args)" using d(1) by simp
    then have "noSharedDescription (Enums f)" using inputs by auto
    then have "inj_on (\<lambda>kv. Description (snd kv)) (set (entries (Enums f)))"
      by (simp add: noSharedDescription_def distinct_map)
    then show ?thesis using both kv'(2) by (auto dest: inj_onD)
  qed
  have kept: "set (entries (Enums f)) \<subseteq> set (entries (Enums g))"
    if g: "map_of m (Name f) = Some g" and d: "visitsOf args = pre @ (f, v) # post"
      and later: "\<forall>fv \<in> set post. Name (fst fv) \<noteq> Name f"
    for g pre f v post
  proof -
    from orders d have r: "allRearrange (pre @ (f, v) # post)" by simp
    then have rv: "rearranges v" by simp
    obtain m0 h m' where 1: "processFields [] (pre @ (f, v) # post) = Inr m'"
        "map_of m' (Name f) = Some h" "map_of m0 (Name f) = None \<longrightarrow> h = f"
        "\<forall>old. map_of m0 (Name f) = Some old \<longrightarrow> mergeField v old f = Inr h"
      by (rule processFields_lastE [OF r later, of "[]"]) (rule that)
    from 1(1) m d have "m' = m" by simp
    with 1(2) g have "h = g" by simp
    show ?thesis
    proof (cases "map_of m0 (Name f)")
      case None
      then show ?thesis using 1(3) \<open>h = g\<close> by simp
    next
      case (Some old)
      then show ?thesis using 1(4) mergeField_keeps [OF rv] \<open>h = g\<close> by simp
    qed
  qed
  from run inv newest kept show ?thesis
    by - (rule exI [of _ m], intro conjI allI impI, assumption, blast, blast, blast, blast)
qed

theorem C8_no_shared_description_witness:
  "processDicts [] [(''FIX40.xml'', Inr [(sellOld, id)]), (''FIX41.xml'', Inr [(sellNew, rev)]),
                    (''FIX42.xml'', Inr [(sideNil, rev)])] =
     Inr [(''Side'', side (Some [entry ''3'' ''Sell'', entry ''1'' ''Buy'']))] \<and>
   noSharedDescription (Some [entry ''3'' ''Sell'', entry ''1'' ''Buy'']) \<and>
   entry ''2'' ''Sell'' \<in> set (entries (Enums sellOld)) \<and>
   entry ''3'' ''Sell'' \<in> set (entries (Enums sellNew)) \<and>
   entries (Enums sideNil) = []"
proof -
  let ?args = "[(''FIX40.xml'', Inr [(sellOld, id)]), (''FIX41.xml'', Inr [(sellNew, rev)]),
                (''FIX42.xml'', Inr [(sideNil, rev)])]"
  have h1: "allParsed ?args" by (simp add: allParsed_def)
  have h3: "visitsOf ?args = [(sellOld, id), (sellNew, rev), (sideNil, rev)]"
    by (simp add: visitsOf_def)
  have h2: "allRearrange (visitsOf ?args)"
    unfolding h3 by (simp add: rearranges_id rearranges_rev)
  have h4: "\<forall>fv \<in> set (visitsOf ?args).
      isMap (Enums (fst fv)) \<and> noSharedDescription (Enums (fst fv))"
    unfolding h3 by (simp add: isMap_def noSharedDescription_def run_simps)
  have total: "\<exists>m. processDicts [] ?args = Inr m"
    by (insert C8_no_shared_description [OF h1 h2 h4], elim exE conjE, rule exI)
  have run: "processDicts [] ?args =
     Inr [(''Side'', side (Some [entry ''3'' ''Sell'', entry ''1'' ''Buy'']))]"
    by (simp add: run_simps)
  have rest: "noSharedDescription (Some [entry ''3'' ''Sell'', entry ''1'' ''Buy'']) \<and>
   entry ''2'' ''Sell'' \<in> set (entries (Enums sellOld)) \<and>
   entry ''3'' ''Sell'' \<in> set (entries (Enums sellNew)) \<and>
   entries (Enums sideNil) = []"
    by (simp add: run_simps noSharedDescription_def)
  from total run rest show ?thesis by (intro conjI) (erule conjunct1 | simp)+
qed

text \<open>
  C9: for every field \<open>F\<close> of the wrapper and every message \<open>m\<close>, the allocating
  getter \<^verbatim>\<open>m.F()\<close> gives what the getter \<^verbatim>\<open>m.GetF(f)\<close> gives on a fresh, zero
  wrapper \<open>f\<close> of the field: the wrapper as the call leaves it and the value the call
  returns.
\<close>

theorem C9_getter_refines_getInto:
  "getField Get zero F m = getFieldInto Get m (F, zero)"
  by (simp add: getField_def getFieldInto_def split: prod.splits)

text \<open>
  C10: \<^verbatim>\<open>quickfixValueType\<close> returns the empty string for every input outside its five
  names; for \<^verbatim>\<open>FIXString\<close>, \<^verbatim>\<open>FIXBoolean\<close>, \<^verbatim>\<open>FIXInt\<close> and \<^verbatim>\<open>FIXFloat\<close>, the base
  types other than \<^verbatim>\<open>FIXUTCTimestamp\<close> that \<^verbatim>\<open>quickfixType\<close> returns without error, it
  returns a name that is not empty. So the branch of the field template that prints
  the value type never prints the empty string once the type mapping succeeded.
\<close>

theorem C10_quickfixValueType_nonempty:
  "(t \<notin> {''FIXString'', ''FIXBoolean'', ''FIXInt'', ''FIXUTCTimestamp'', ''FIXFloat''}
      \<longrightarrow> quickfixValueType t = []) \<and>
   (t \<in> {''FIXString'', ''FIXBoolean'', ''FIXInt'', ''FIXFloat''}
      \<longrightarrow> quickfixValueType t \<noteq> []) \<and>
   (snd (quickfixType f) = None \<and> fst (quickfixType f) \<noteq> ''FIXUTCTimestamp''
      \<longrightarrow> fst (quickfixType f) \<in> {''FIXString'', ''FIXBoolean'', ''FIXInt'', ''FIXFloat''} \<and>
          quickfixValueType (fst (quickfixType f)) \<noteq> []) \<and>
   (\<forall>out. fieldEntry f = Inr out \<and> fst (quickfixType f) \<noteq> ''FIXUTCTimestamp''
      \<longrightarrow> quickfixValueType (fst (quickfixType f)) \<noteq> [] \<and>
          out = fieldHeading f (fst (quickfixType f)) @
                 valueConstructor f (fst (quickfixType f)))"
proof (intro conjI impI allI)
  assume "t \<notin> {''FIXString'', ''FIXBoolean'', ''FIXInt'', ''FIXUTCTimestamp'', ''FIXFloat''}"
  then show "quickfixValueType t = []" by (simp add: quickfixValueType_def)
next
  assume "t \<in> {''FIXString'', ''FIXBoolean'', ''FIXInt'', ''FIXFloat''}"
  then show "quickfixValueType t \<noteq> []" by (auto simp: quickfixValueType_def)
next
  assume a: "snd (quickfixType f) = None \<and> fst (quickfixType f) \<noteq> ''FIXUTCTimestamp''"
  then have "quickfixType f = (fst (quickfixType f), None)" by (metis prod.collapse)
  from quickfixType_ok [OF this] a
  show "fst (quickfixType f) \<in> {''FIXString'', ''FIXBoolean'', ''FIXInt'', ''FIXFloat''}"
    by auto
  then show "quickfixValueType (fst (quickfixType f)) \<noteq> []"
    by (auto simp: quickfixValueType_def)
next
  fix out
  assume a: "fieldEntry f = Inr out \<and> fst (quickfixType f) \<noteq> ''FIXUTCTimestamp''"
  then have ok: "quickfixType f = (fst (quickfixType f), None)"
    by (cases "quickfixType f") (auto simp: fieldEntry_def split: option.splits)
  from quickfixType_ok [OF this]
  show "quickfixValueType (fst (quickfixType f)) \<noteq> []"
    by (rule quickfixValueType_nonempty)
  show "out = fieldHeading f (fst (quickfixType f)) @ valueConstructor f (fst (quickfixType f))"
    using a ok by (cases "quickfixType f") (auto simp: fieldEntry_def)
qed

theorem C10_quickfixValueType_witness:
  "''FIXDecimal'' \<notin> {''FIXString'', ''FIXBoolean'', ''FIXInt'', ''FIXUTCTimestamp'', ''FIXFloat''} \<and>
   quickfixValueType ''FIXDecimal'' = [] \<and>
   ''FIXFloat'' \<in> {''FIXString'', ''FIXBoolean'', ''FIXInt'', ''FIXFloat''} \<and>
   quickfixValueType ''FIXFloat'' \<noteq> [] \<and>
   snd (quickfixType fInt) = None \<and> fst (quickfixType fInt) \<noteq> ''FIXUTCTimestamp'' \<and>
   quickfixValueType (fst (quickfixType fInt)) = ''int'' \<and>
   fieldEntry fInt = Inr (fieldHeading fInt ''FIXInt'' @ valueConstructor fInt ''FIXInt'')"
  using C10_quickfixValueType_nonempty [of "''FIXDecimal''" fInt]
    C10_quickfixValueType_nonempty [of "''FIXFloat''" fInt]
  by (simp add: quickfixType_fInt quickfixValueType_def fieldEntry_def)

end
